theory Spec2Isabelle
  imports Complex_Main "HOL-Library.Product_Lexorder" "HOL-Library.Multiset"
begin

section \<open>Nominatim forward search: tokenizer, token assignment, near search\<close>

text \<open>
  A shallow embedding of \<^verbatim>\<open>nominatim_api/search/icu_tokenizer.py\<close>,
  \<^verbatim>\<open>nominatim_api/search/token_assignment.py\<close> and of
  \<^verbatim>\<open>NearSearch.lookup\<close> in \<^verbatim>\<open>nominatim_api/search/db_searches.py\<close>.

  Conventions of the embedding:
  \<^item> A Python \<^verbatim>\<open>str\<close> is a list of Unicode code points (\<open>nat\<close>), so that
    \<^verbatim>\<open>len\<close> counts what Python counts. \<^verbatim>\<open>str.isdigit\<close> depends on the Unicode
    tables of the interpreter; the per-character test is the parameter \<open>dig\<close> of the
    functions that use it.
  \<^item> Python \<^verbatim>\<open>int\<close> is \<open>int\<close>. Penalties and accuracies are Python floats; they
    are modelled as exact reals with the decimal constants of the source read as exact
    decimals. Rounding of binary floating point is not modelled.
  \<^item> An exception is a value \<open>Inl e\<close> of a sum type; a generator that raises after
    having yielded some values is a pair of the values yielded and the error.
\<close>

subsection \<open>Python values\<close>

type_synonym pychar = nat
type_synonym pystr = "pychar list"

definition pystr :: "string \<Rightarrow> pystr" where
  "pystr s = map of_char s"

definition SPACE :: pychar where
  "SPACE = 32"

definition AT_SIGN :: pychar where
  "AT_SIGN = 64"

text \<open>\<^verbatim>\<open>str.isdigit()\<close>: true when the string is not empty and all its characters are digits.\<close>

definition str_isdigit :: "(pychar \<Rightarrow> bool) \<Rightarrow> pystr \<Rightarrow> bool" where
  "str_isdigit dig s = (s \<noteq> [] \<and> list_all dig s)"

text \<open>The ASCII digits, used to run the model on concrete strings.\<close>

definition ascii_digit :: "pychar \<Rightarrow> bool" where
  "ascii_digit c = (48 \<le> c \<and> c \<le> 57)"

datatype pyerror = TypeError | AttributeError | IndexError | KeyError | AssertionError

text \<open>The values of a JSON column as Python decodes them.\<close>

datatype json =
    JNull
  | JBool bool
  | JInt int
  | JReal real
  | JStr pystr
  | JArr "json list"
  | JObj "(pystr \<times> json) list"

type_synonym jdict = "(pystr \<times> json) list"

text \<open>\<^verbatim>\<open>d.get(key, default)\<close>\<close>

definition dict_get :: "jdict \<Rightarrow> pystr \<Rightarrow> json \<Rightarrow> json" where
  "dict_get d k dflt = (case map_of d k of None \<Rightarrow> dflt | Some v \<Rightarrow> v)"

text \<open>Python truthiness of a decoded JSON value.\<close>

fun truthy :: "json \<Rightarrow> bool" where
  "truthy JNull = False"
| "truthy (JBool b) = b"
| "truthy (JInt n) = (n \<noteq> 0)"
| "truthy (JReal x) = (x \<noteq> 0)"
| "truthy (JStr s) = (s \<noteq> [])"
| "truthy (JArr xs) = (xs \<noteq> [])"
| "truthy (JObj kvs) = (kvs \<noteq> [])"

text \<open>A Python number, as \<^verbatim>\<open>max(1, x)\<close> may return an int or a float.\<close>

datatype pynum = PInt int | PFloat real

fun num_value :: "pynum \<Rightarrow> real" where
  "num_value (PInt n) = real_of_int n"
| "num_value (PFloat x) = x"

text \<open>
  \<^verbatim>\<open>max(1, v)\<close>: the first argument is kept unless the second is strictly greater;
  \<^verbatim>\<open>True\<close> and \<^verbatim>\<open>False\<close> compare as 1 and 0; comparing an int with \<^verbatim>\<open>None\<close>, a
  string, a list or a dict raises \<^verbatim>\<open>TypeError\<close>.
\<close>

fun max1 :: "json \<Rightarrow> pyerror + pynum" where
  "max1 (JInt n) = Inr (if n > 1 then PInt n else PInt 1)"
| "max1 (JReal x) = Inr (if x > 1 then PFloat x else PInt 1)"
| "max1 (JBool b) = Inr (PInt 1)"
| "max1 JNull = Inl TypeError"
| "max1 (JStr s) = Inl TypeError"
| "max1 (JArr xs) = Inl TypeError"
| "max1 (JObj kvs) = Inl TypeError"

subsection \<open>Tokens (\<^verbatim>\<open>ICUToken\<close>) and word-table rows\<close>

record icu_token =
  penalty :: real
  token :: "int option"
  count :: pynum
  addr_count :: pynum
  lookup_word :: pystr
  word_token :: pystr
  info :: "jdict option"

text \<open>A row of the \<^verbatim>\<open>word\<close> table; \<^verbatim>\<open>word_id\<close>, \<^verbatim>\<open>word\<close> and \<^verbatim>\<open>info\<close> are nullable.\<close>

record word_row =
  row_word_id :: "int option"
  row_word_token :: pystr
  row_type :: pystr
  row_word :: "pystr option"
  row_info :: "jdict option"

text \<open>
  The penalty that \<^verbatim>\<open>from_db_row\<close> adds to the base penalty, by row type.
  \<^verbatim>\<open>sum(0.1 for c in ...)\<close> adds one 0.1 per selected character.
\<close>

definition type_penalty :: "(pychar \<Rightarrow> bool) \<Rightarrow> word_row \<Rightarrow> real" where
  "type_penalty dig row =
    (if row_type row = pystr ''w'' then 0.3
     else if row_type row = pystr ''W'' then
       (case row_word row of
          None \<Rightarrow> 0
        | Some w \<Rightarrow>
            if length (row_word_token row) = 1 \<and> row_word_token row = w
            then (if str_isdigit dig w then 0.2 else 0.3)
            else 0)
     else if row_type row = pystr ''H'' then
       sum_list (map (\<lambda>c. 0.1) (filter (\<lambda>c. c \<noteq> SPACE \<and> \<not> dig c) (row_word_token row)))
       + (if list_all (\<lambda>c. \<not> dig c) (row_word_token row)
          then 0.2 * real_of_int (int (length (row_word_token row)) - 1)
          else 0)
     else if row_type row = pystr ''C'' then
       (if length (row_word_token row) = 1 then 0.3 else 0)
     else 0)"

text \<open>
  The lookup word: \<^verbatim>\<open>row.word\<close> or \<^verbatim>\<open>info['lookup']\<close>, cut at the first \<^verbatim>\<open>@\<close>
  when truthy, else the word token. A truthy value that is not a string has no
  \<^verbatim>\<open>split\<close> and raises \<^verbatim>\<open>AttributeError\<close>.
\<close>

definition row_lookup_value :: "word_row \<Rightarrow> json" where
  "row_lookup_value row =
    (let w = (case row_word row of None \<Rightarrow> JNull | Some s \<Rightarrow> JStr s)
     in case row_info row of None \<Rightarrow> w | Some d \<Rightarrow> dict_get d (pystr ''lookup'') w)"

definition row_lookup_word :: "word_row \<Rightarrow> pyerror + pystr" where
  "row_lookup_word row =
    (let v = row_lookup_value row
     in if truthy v
        then (case v of JStr s \<Rightarrow> Inr (takeWhile (\<lambda>c. c \<noteq> AT_SIGN) s)
                      | _ \<Rightarrow> Inl AttributeError)
        else Inr (row_word_token row))"

definition from_db_row :: "(pychar \<Rightarrow> bool) \<Rightarrow> word_row \<Rightarrow> real \<Rightarrow> pyerror + icu_token" where
  "from_db_row dig row base_penalty =
    (let cnt = (case row_info row of None \<Rightarrow> JInt 1
                | Some d \<Rightarrow> dict_get d (pystr ''count'') (JInt 1));
         acnt = (case row_info row of None \<Rightarrow> JInt 1
                 | Some d \<Rightarrow> dict_get d (pystr ''addr_count'') (JInt 1));
         pen = base_penalty + type_penalty dig row
     in case row_lookup_word row of
          Inl e \<Rightarrow> Inl e
        | Inr lw \<Rightarrow>
           (case max1 cnt of
              Inl e \<Rightarrow> Inl e
            | Inr c \<Rightarrow>
               (case max1 acnt of
                  Inl e \<Rightarrow> Inl e
                | Inr ac \<Rightarrow>
                    Inr \<lparr>penalty = pen, token = row_word_id row, count = c,
                         addr_count = ac, lookup_word = lw,
                         word_token = row_word_token row, info = row_info row\<rparr>)))"

subsection \<open>The query model (\<^verbatim>\<open>qmod\<close>)\<close>

text \<open>
  The module \<^verbatim>\<open>query.py\<close> is not among the sources. Its types are taken from the way
  the three modules above use them and from the data model of the specification.
\<close>

datatype token_type =
    TOKEN_WORD | TOKEN_PARTIAL | TOKEN_HOUSENUMBER | TOKEN_POSTCODE
  | TOKEN_COUNTRY | TOKEN_QUALIFIER | TOKEN_NEAR_ITEM

datatype break_type =
    BREAK_START | BREAK_END | BREAK_PHRASE | BREAK_SOFT_PHRASE
  | BREAK_WORD | BREAK_PART | BREAK_TOKEN

datatype phrase_type =
    PHRASE_ANY | PHRASE_AMENITY | PHRASE_STREET | PHRASE_CITY | PHRASE_COUNTY
  | PHRASE_STATE | PHRASE_POSTCODE | PHRASE_COUNTRY | PHRASE_HOUSENUMBER

text \<open>\<^verbatim>\<open>PENALTY_IN_TOKEN_BREAK\<close> of \<^verbatim>\<open>icu_tokenizer.py\<close>.\<close>

fun PENALTY_IN_TOKEN_BREAK :: "break_type \<Rightarrow> real" where
  "PENALTY_IN_TOKEN_BREAK BREAK_START = 0.5"
| "PENALTY_IN_TOKEN_BREAK BREAK_END = 0.5"
| "PENALTY_IN_TOKEN_BREAK BREAK_PHRASE = 0.5"
| "PENALTY_IN_TOKEN_BREAK BREAK_SOFT_PHRASE = 0.5"
| "PENALTY_IN_TOKEN_BREAK BREAK_WORD = 0.1"
| "PENALTY_IN_TOKEN_BREAK BREAK_PART = 0.0"
| "PENALTY_IN_TOKEN_BREAK BREAK_TOKEN = 0.0"

text \<open>
  \<^verbatim>\<open>TokenRange(start, end, penalty=None)\<close>: the half-open range of token slots
  \<open>[start, end)\<close>.
\<close>

record token_range =
  tr_start :: int
  tr_end :: int
  tr_penalty :: "real option"

definition TokenRange :: "int \<Rightarrow> int \<Rightarrow> token_range" where
  "TokenRange s e = \<lparr>tr_start = s, tr_end = e, tr_penalty = None\<rparr>"

text \<open>
  Modelled from the spec: the methods of \<^verbatim>\<open>TokenRange\<close> (\<^verbatim>\<open>replace_end\<close>,
  \<^verbatim>\<open>replace_start\<close>, \<^verbatim>\<open>split\<close> and the order of two ranges) are missing from the
  sources. A range is replaced at one end keeping the other; \<^verbatim>\<open>split(i)\<close> cuts
  \<open>[start, end)\<close> into \<open>[start, i)\<close> and \<open>[i, end)\<close>; one range is less than another
  when it lies entirely before it.
\<close>

definition replace_end :: "token_range \<Rightarrow> int \<Rightarrow> token_range" where
  "replace_end r e = TokenRange (tr_start r) e"

definition replace_start :: "token_range \<Rightarrow> int \<Rightarrow> token_range" where
  "replace_start r s = TokenRange s (tr_end r)"

definition split_range :: "token_range \<Rightarrow> int \<Rightarrow> token_range \<times> token_range" where
  "split_range r i = (replace_end r i, replace_start r i)"

definition range_lt :: "token_range \<Rightarrow> token_range \<Rightarrow> bool" where
  "range_lt a b = (tr_end a \<le> tr_start b)"

definition range_gt :: "token_range \<Rightarrow> token_range \<Rightarrow> bool" where
  "range_gt a b = (tr_start a \<ge> tr_end b)"

text \<open>A \<^verbatim>\<open>TokenList\<close>: the tokens of one type that start at a node and end at \<open>tl_end\<close>.\<close>

record token_list =
  tl_end :: int
  tl_ttype :: token_type
  tl_tokens :: "icu_token list"

record query_node =
  btype :: break_type
  ptype :: phrase_type
  starting :: "token_list list"
  partial :: "icu_token option"

record phrase =
  ph_ptype :: phrase_type
  ph_text :: pystr

record query_struct =
  source :: "phrase list"
  nodes :: "query_node list"
  dir_penalty :: real

text \<open>
  Modelled from the spec: \<^verbatim>\<open>QueryStruct.num_token_slots\<close> and
  \<^verbatim>\<open>QueryNode.word_break_penalty\<close> are missing from the sources. There is one node
  before the first slot and one after each slot; the word break penalty is derived from
  the break at the node by the table of break penalties.
\<close>

definition num_token_slots :: "query_struct \<Rightarrow> int" where
  "num_token_slots q = int (length (nodes q)) - 1"

definition word_break_penalty :: "query_node \<Rightarrow> real" where
  "word_break_penalty n = PENALTY_IN_TOKEN_BREAK (btype n)"

text \<open>
  Python indexing \<^verbatim>\<open>xs[i]\<close>: an index below zero is counted from the end of the
  list, and an index outside the list raises \<^verbatim>\<open>IndexError\<close>.
\<close>

definition norm_index :: "nat \<Rightarrow> int \<Rightarrow> nat option" where
  "norm_index len i =
    (if i < - int len \<or> int len \<le> i then None
     else if i < 0 then Some (nat (int len + i))
     else Some (nat i))"

definition py_index :: "'a list \<Rightarrow> int \<Rightarrow> pyerror + 'a" where
  "py_index xs i =
    (case norm_index (length xs) i of
       None \<Rightarrow> Inl IndexError
     | Some j \<Rightarrow> Inr (xs ! j))"

subsection \<open>Generators\<close>

text \<open>
  What a generator has done when it is observed: the values yielded so far, and whether
  it has returned, has raised, or is still running (the observer's fuel ran out).
\<close>

datatype outcome = Finished | Raised pyerror | Unfinished

type_synonym 'a gen = "'a list \<times> outcome"

text \<open>Run one generator, then the next unless the first did not return.\<close>

definition gen_then :: "'a gen \<Rightarrow> 'a gen \<Rightarrow> 'a gen" where
  "gen_then g h = (if snd g = Finished then (fst g @ fst h, snd h) else g)"

definition gen_yield :: "'a list \<Rightarrow> 'a gen" where
  "gen_yield xs = (xs, Finished)"

definition gen_raise :: "pyerror \<Rightarrow> 'a gen" where
  "gen_raise e = ([], Raised e)"

subsection \<open>Token assignments (\<^verbatim>\<open>token_assignment.py\<close>)\<close>

record typed_range =
  ttype :: token_type
  trange :: token_range

record token_assignment =
  ta_penalty :: real
  name :: "token_range option"
  address :: "token_range list"
  housenumber :: "token_range option"
  postcode :: "token_range option"
  country :: "token_range option"
  near_item :: "token_range option"
  qualifier :: "token_range option"

definition empty_assignment :: token_assignment where
  "empty_assignment =
    \<lparr>ta_penalty = 0, name = None, address = [], housenumber = None, postcode = None,
     country = None, near_item = None, qualifier = None\<rparr>"

definition from_ranges_step :: "token_assignment \<Rightarrow> typed_range \<Rightarrow> token_assignment" where
  "from_ranges_step out tk =
    (if ttype tk = TOKEN_PARTIAL then out\<lparr>address := address out @ [trange tk]\<rparr>
     else if ttype tk = TOKEN_HOUSENUMBER then out\<lparr>housenumber := Some (trange tk)\<rparr>
     else if ttype tk = TOKEN_POSTCODE then out\<lparr>postcode := Some (trange tk)\<rparr>
     else if ttype tk = TOKEN_COUNTRY then out\<lparr>country := Some (trange tk)\<rparr>
     else if ttype tk = TOKEN_NEAR_ITEM then out\<lparr>near_item := Some (trange tk)\<rparr>
     else if ttype tk = TOKEN_QUALIFIER then out\<lparr>qualifier := Some (trange tk)\<rparr>
     else out)"

definition from_ranges :: "typed_range list \<Rightarrow> token_assignment" where
  "from_ranges ranges = foldl from_ranges_step empty_assignment ranges"

text \<open>\<^verbatim>\<open>_TokenSequence\<close>: the working state of the enumeration.\<close>

record token_sequence =
  seq :: "typed_range list"
  direction :: int
  seq_penalty :: real

definition end_pos :: "token_sequence \<Rightarrow> int" where
  "end_pos s = (if seq s \<noteq> [] then tr_end (trange (last (seq s))) else 0)"

definition has_types :: "token_sequence \<Rightarrow> token_type list \<Rightarrow> bool" where
  "has_types s ttypes = list_ex (\<lambda>r. ttype r \<in> set ttypes) (seq s)"

definition is_final :: "token_sequence \<Rightarrow> bool" where
  "is_final s =
    (length (seq s) > 1 \<and> ttype (last (seq s)) \<in> {TOKEN_COUNTRY, TOKEN_NEAR_ITEM})"

definition appendable :: "token_sequence \<Rightarrow> token_type \<Rightarrow> int option" where
  "appendable s t =
    (if t = TOKEN_WORD then None
     else if seq s = [] then
       (if t = TOKEN_COUNTRY then Some (- 1)
        else if t \<in> {TOKEN_HOUSENUMBER, TOKEN_QUALIFIER} then Some 1
        else Some (direction s))
     else if t = TOKEN_PARTIAL then
       (if direction s = - 1
           \<and> list_ex (\<lambda>r. ttype r = TOKEN_QUALIFIER) (butlast (seq s))
        then None
        else Some (direction s))
     else if has_types s [t] then None
     else if t = TOKEN_HOUSENUMBER then
       (if direction s = 1 then
          (if length (seq s) = 1 \<and> ttype (seq s ! 0) = TOKEN_QUALIFIER then None
           else if length (seq s) > 2 \<or> has_types s [TOKEN_POSTCODE, TOKEN_COUNTRY]
           then None
           else Some (direction s))
        else if direction s = - 1 \<or> has_types s [TOKEN_POSTCODE, TOKEN_COUNTRY]
        then Some (- 1)
        else Some (direction s))
     else if t = TOKEN_POSTCODE then
       (if direction s = - 1 then
          (if has_types s [TOKEN_HOUSENUMBER, TOKEN_QUALIFIER] then None else Some (- 1))
        else if direction s = 1 then
          (if has_types s [TOKEN_COUNTRY] then None else Some 1)
        else if has_types s [TOKEN_HOUSENUMBER, TOKEN_QUALIFIER] then Some 1
        else Some (direction s))
     else if t = TOKEN_COUNTRY then
       (if direction s = - 1 then None else Some 1)
     else if t = TOKEN_NEAR_ITEM then Some (direction s)
     else if t = TOKEN_QUALIFIER then
       (if direction s = 1 then
          (if (length (seq s) = 1
               \<and> ttype (seq s ! 0) \<in> {TOKEN_PARTIAL, TOKEN_NEAR_ITEM})
              \<or> (length (seq s) = 2
                  \<and> ttype (seq s ! 0) = TOKEN_NEAR_ITEM
                  \<and> ttype (seq s ! 1) = TOKEN_PARTIAL)
           then Some 1
           else None)
        else if direction s = - 1 then Some (- 1)
        else
          (let tempseq = (if ttype (seq s ! 0) = TOKEN_NEAR_ITEM then tl (seq s) else seq s)
           in if length tempseq = 0 then Some 1
              else if length tempseq = 1 \<and> ttype (seq s ! 0) = TOKEN_HOUSENUMBER then None
              else if length tempseq > 1 \<or> has_types s [TOKEN_POSTCODE, TOKEN_COUNTRY]
              then Some (- 1)
              else Some 0))
     else None)"

definition advance ::
  "token_sequence \<Rightarrow> token_type \<Rightarrow> int \<Rightarrow> bool \<Rightarrow> real \<Rightarrow> token_sequence option" where
  "advance s t epos force_break break_penalty =
    (case appendable s t of
       None \<Rightarrow> None
     | Some newdir \<Rightarrow>
        (if seq s = [] then
           Some \<lparr>seq = [\<lparr>ttype = t, trange = TokenRange 0 epos\<rparr>],
                 direction = newdir, seq_penalty = seq_penalty s + 0\<rparr>
         else
           (let lst = last (seq s)
            in if \<not> force_break \<and> ttype lst = t then
                 Some \<lparr>seq = butlast (seq s)
                              @ [\<lparr>ttype = t, trange = replace_end (trange lst) epos\<rparr>],
                       direction = newdir, seq_penalty = seq_penalty s + 0\<rparr>
               else
                 Some \<lparr>seq = seq s
                              @ [\<lparr>ttype = t,
                                  trange = TokenRange (tr_end (trange lst)) epos\<rparr>],
                       direction = newdir,
                       seq_penalty = seq_penalty s + break_penalty\<rparr>)))"

definition adapt_penalty_from_priors ::
  "token_sequence \<Rightarrow> int \<Rightarrow> int \<Rightarrow> bool \<times> token_sequence" where
  "adapt_penalty_from_priors s priors new_dir =
    (if priors \<ge> 2 then
       (if direction s = 0 then (True, s\<lparr>direction := new_dir\<rparr>)
        else if priors = 2 then (True, s\<lparr>seq_penalty := seq_penalty s + 0.8\<rparr>)
        else (False, s))
     else (True, s))"

text \<open>The index of the first range of the given type, if there is one.\<close>

fun first_index :: "token_type \<Rightarrow> typed_range list \<Rightarrow> nat option" where
  "first_index t [] = None"
| "first_index t (r # rs) =
    (if ttype r = t then Some 0 else map_option Suc (first_index t rs))"

definition count_partials :: "typed_range list \<Rightarrow> int" where
  "count_partials rs = int (length (filter (\<lambda>r. ttype r = TOKEN_PARTIAL) rs))"

text \<open>
  \<^verbatim>\<open>recheck_sequence\<close> changes the direction and the penalty of the sequence and
  answers whether the sequence is valid: the result is the answer and the changed state.
\<close>

definition recheck_sequence :: "token_sequence \<Rightarrow> bool \<times> token_sequence" where
  "recheck_sequence s =
    (case first_index TOKEN_HOUSENUMBER (seq s) of
       None \<Rightarrow> (True, s)
     | Some hnrpos \<Rightarrow>
        (let (ok1, s1) =
               (if direction s \<noteq> - 1
                then adapt_penalty_from_priors s (count_partials (take hnrpos (seq s))) (- 1)
                else (True, s))
         in if \<not> ok1 then (False, s1)
            else
              (let (ok2, s2) =
                     (if direction s1 \<noteq> 1
                      then adapt_penalty_from_priors s1
                             (count_partials (drop (hnrpos + 1) (seq s1))) 1
                      else (True, s1))
               in if \<not> ok2 then (False, s2)
                  else if list_ex (\<lambda>r. ttype r = TOKEN_NEAR_ITEM) (seq s2)
                  then (True, s2\<lparr>seq_penalty := seq_penalty s2 + 1.0\<rparr>)
                  else (True, s2))))"

definition get_assignments_postcode ::
  "token_sequence \<Rightarrow> token_assignment \<Rightarrow> int \<Rightarrow> token_assignment gen" where
  "get_assignments_postcode s base query_len =
    (case postcode base of
       None \<Rightarrow> gen_raise AssertionError
     | Some pc \<Rightarrow>
        (if (tr_start pc = 0 \<and> direction s \<noteq> - 1)
            \<or> (tr_end pc = query_len \<and> direction s \<noteq> 1)
         then
           (let pen = (if tr_start pc = 0 then seq_penalty s else seq_penalty s + 0.1);
                pen' = pen + 0.1 * real_of_int (max 0 (int (length (address base)) - 1))
            in gen_yield [base\<lparr>ta_penalty := pen'\<rparr>])
         else gen_yield []))"

text \<open>
  The loop of \<^verbatim>\<open>_get_assignments_address_forward\<close> over the positions at which the
  first address range is split into a name and the rest.
\<close>

fun forward_splits ::
  "query_struct \<Rightarrow> token_assignment \<Rightarrow> token_range \<Rightarrow> real \<Rightarrow> int list
   \<Rightarrow> token_assignment gen" where
  "forward_splits q base first pen [] = gen_yield []"
| "forward_splits q base first pen (i # is) =
    (case split_range first i of
       (nm, addr) \<Rightarrow>
        (case py_index (nodes q) i of
           Inl e \<Rightarrow> gen_raise e
         | Inr nd \<Rightarrow>
            gen_then
              (gen_yield [base\<lparr>name := Some nm, address := addr # tl (address base),
                               ta_penalty := pen + word_break_penalty nd\<rparr>])
              (forward_splits q base first pen is)))"

text \<open>
  The second half of \<^verbatim>\<open>_get_assignments_address_forward\<close>, after the assignment
  with the whole first range as the name has been yielded with penalty \<open>pen\<close>.
\<close>

definition forward_split_part ::
  "token_sequence \<Rightarrow> token_assignment \<Rightarrow> query_struct \<Rightarrow> token_range \<Rightarrow> real
   \<Rightarrow> token_assignment gen" where
  "forward_split_part s base q first pen =
    (if (case housenumber base of None \<Rightarrow> False | Some hn \<Rightarrow> tr_end first < tr_start hn)
        \<or> (case qualifier base of None \<Rightarrow> False | Some ql \<Rightarrow> range_gt ql first)
     then gen_yield []
     else
       (case py_index (nodes q) (tr_start first) of
          Inl e \<Rightarrow> gen_raise e
        | Inr nd \<Rightarrow>
           (if ptype nd \<noteq> PHRASE_ANY then gen_yield []
            else
              (let pen1 = (if (case housenumber base of None \<Rightarrow> False
                               | Some hn \<Rightarrow> range_gt hn first)
                              \<or> length (source q) > 1
                           then pen + 0.25 else pen);
                   pen2 = (if direction s = 0 \<and> dir_penalty q > 0
                           then pen1 + dir_penalty q else pen1)
               in forward_splits q base first pen2
                    [tr_start first + 1 .. tr_end first - 1]))))"

definition get_assignments_address_forward ::
  "token_sequence \<Rightarrow> token_assignment \<Rightarrow> query_struct \<Rightarrow> token_assignment gen" where
  "get_assignments_address_forward s base q =
    (case address base of
       [] \<Rightarrow> gen_raise IndexError
     | first # rest \<Rightarrow>
        (if (case postcode base of None \<Rightarrow> False | Some pc \<Rightarrow> range_lt pc first)
         then gen_yield []
         else
           (let pen = (if country base = None \<and> direction s = 1 \<and> dir_penalty q > 0
                       then seq_penalty s + dir_penalty q else seq_penalty s)
            in gen_then
                 (gen_yield [base\<lparr>ta_penalty := pen, name := Some first, address := rest\<rparr>])
                 (forward_split_part s base q first pen))))"

fun backward_splits ::
  "query_struct \<Rightarrow> token_assignment \<Rightarrow> token_range \<Rightarrow> real \<Rightarrow> int list
   \<Rightarrow> token_assignment gen" where
  "backward_splits q base lst pen [] = gen_yield []"
| "backward_splits q base lst pen (i # is) =
    (case split_range lst i of
       (addr, nm) \<Rightarrow>
        (case py_index (nodes q) i of
           Inl e \<Rightarrow> gen_raise e
         | Inr nd \<Rightarrow>
            gen_then
              (gen_yield [base\<lparr>name := Some nm, address := butlast (address base) @ [addr],
                               ta_penalty := pen + word_break_penalty nd\<rparr>])
              (backward_splits q base lst pen is)))"

text \<open>The second half of \<^verbatim>\<open>_get_assignments_address_backward\<close>.\<close>

definition backward_split_part ::
  "token_sequence \<Rightarrow> token_assignment \<Rightarrow> query_struct \<Rightarrow> token_range \<Rightarrow> real
   \<Rightarrow> token_assignment gen" where
  "backward_split_part s base q lst pen =
    (if (case housenumber base of None \<Rightarrow> False | Some hn \<Rightarrow> tr_start lst > tr_end hn)
        \<or> (case qualifier base of None \<Rightarrow> False | Some ql \<Rightarrow> range_lt ql lst)
     then gen_yield []
     else
       (case py_index (nodes q) (tr_start lst) of
          Inl e \<Rightarrow> gen_raise e
        | Inr nd \<Rightarrow>
           (if ptype nd \<noteq> PHRASE_ANY then gen_yield []
            else
              (let pen1 = (if (case housenumber base of None \<Rightarrow> False
                               | Some hn \<Rightarrow> range_lt hn lst)
                           then pen + 0.4 else pen);
                   pen2 = (if length (source q) > 1 then pen1 + 0.25 else pen1);
                   pen3 = (if direction s = 0 \<and> dir_penalty q < 0
                           then pen2 - dir_penalty q else pen2)
               in backward_splits q base lst pen3
                    [tr_start lst + 1 .. tr_end lst - 1]))))"

definition get_assignments_address_backward ::
  "token_sequence \<Rightarrow> token_assignment \<Rightarrow> query_struct \<Rightarrow> token_assignment gen" where
  "get_assignments_address_backward s base q =
    (if address base = [] then gen_raise IndexError
     else
       (let lst = last (address base)
        in if (case postcode base of None \<Rightarrow> False | Some pc \<Rightarrow> range_gt pc lst)
           then gen_yield []
           else
             (let pen = (if country base = None \<and> direction s = - 1 \<and> dir_penalty q < 0
                         then seq_penalty s - dir_penalty q else seq_penalty s)
              in gen_then
                   (if direction s = - 1 \<or> length (address base) > 1 \<or> postcode base \<noteq> None
                    then gen_yield [base\<lparr>ta_penalty := pen, name := Some lst,
                                         address := butlast (address base)\<rparr>]
                    else gen_yield [])
                   (backward_split_part s base q lst pen))))"

definition num_addr_tokens :: "token_assignment \<Rightarrow> int" where
  "num_addr_tokens base = sum_list (map (\<lambda>t. tr_end t - tr_start t) (address base))"

text \<open>
  \<^verbatim>\<open>get_assignments\<close>. In its last branch, the one of a sequence with address
  ranges, the sequence's penalty is raised by 0.1 before the address readings when the
  postcode starts the query; \<open>s'\<close> is the sequence after that.
\<close>

definition get_assignments_address ::
  "token_sequence \<Rightarrow> token_assignment \<Rightarrow> query_struct \<Rightarrow> token_assignment gen" where
  "get_assignments_address s base q =
    (let s' = (if (case postcode base of None \<Rightarrow> False | Some pc \<Rightarrow> tr_start pc = 0)
               then s\<lparr>seq_penalty := seq_penalty s + 0.1\<rparr> else s)
     in gen_then
          (if direction s' \<noteq> - 1
           then get_assignments_address_forward s' base q else gen_yield [])
          (gen_then
             (if direction s' \<noteq> 1
              then get_assignments_address_backward s' base q else gen_yield [])
             (if housenumber base \<noteq> None \<and> qualifier base = None
              then gen_yield [base\<lparr>ta_penalty := seq_penalty s'\<rparr>]
              else gen_yield [])))"

definition get_assignments :: "token_sequence \<Rightarrow> query_struct \<Rightarrow> token_assignment gen" where
  "get_assignments s q =
    (let base = from_ranges (seq s)
     in if num_addr_tokens base > 50 then gen_yield []
        else
          gen_then
            (if postcode base \<noteq> None \<and> address base \<noteq> []
             then get_assignments_postcode s base (num_token_slots q)
             else gen_yield [])
            (if address base = [] then
               (if housenumber base = None
                   \<and> (postcode base \<noteq> None \<or> country base \<noteq> None \<or> near_item base \<noteq> None)
                then gen_yield [base\<lparr>ta_penalty := seq_penalty s\<rparr>]
                else gen_yield [])
             else get_assignments_address s base q))"

text \<open>
  \<^verbatim>\<open>_append_state_to_todo\<close>: what is yielded for the new state, and the work list
  after it.
\<close>

definition append_state_to_todo ::
  "query_struct \<Rightarrow> token_sequence list \<Rightarrow> token_sequence option
   \<Rightarrow> token_assignment gen \<times> token_sequence list" where
  "append_state_to_todo q todo newstate =
    (case newstate of
       None \<Rightarrow> (gen_yield [], todo)
     | Some ns \<Rightarrow>
        (if end_pos ns = num_token_slots q then
           (case recheck_sequence ns of
              (True, ns') \<Rightarrow> (get_assignments ns' q, todo)
            | (False, ns') \<Rightarrow> (gen_yield [], todo))
         else if \<not> is_final ns then (gen_yield [], todo @ [ns])
         else (gen_yield [], todo)))"

text \<open>The \<^verbatim>\<open>for tlist in node.starting\<close> loop of \<^verbatim>\<open>yield_token_assignments\<close>.\<close>

fun starting_loop ::
  "query_struct \<Rightarrow> token_sequence \<Rightarrow> query_node \<Rightarrow> token_list list \<Rightarrow> token_sequence list
   \<Rightarrow> token_assignment gen \<times> token_sequence list" where
  "starting_loop q state node [] todo = (gen_yield [], todo)"
| "starting_loop q state node (tlist # rest) todo =
    (case append_state_to_todo q todo
            (advance state (tl_ttype tlist) (tl_end tlist) True (word_break_penalty node)) of
       (g, todo') \<Rightarrow>
         (if snd g = Finished
          then (case starting_loop q state node rest todo' of
                  (g', todo'') \<Rightarrow> (gen_then g g', todo''))
          else (g, todo')))"

text \<open>The body of the \<^verbatim>\<open>while todo\<close> loop for the state popped from the work list.\<close>

definition loop_body ::
  "query_struct \<Rightarrow> token_sequence \<Rightarrow> token_sequence list
   \<Rightarrow> token_assignment gen \<times> token_sequence list" where
  "loop_body q state todo =
    (case py_index (nodes q) (end_pos state) of
       Inl e \<Rightarrow> (gen_raise e, todo)
     | Inr node \<Rightarrow>
        (case starting_loop q state node (starting node) todo of
           (g, todo') \<Rightarrow>
             (if snd g \<noteq> Finished then (g, todo')
              else if partial node \<noteq> None then
                (case append_state_to_todo q todo'
                        (advance state TOKEN_PARTIAL (end_pos state + 1)
                           (btype node = BREAK_PHRASE) (word_break_penalty node)) of
                   (g', todo'') \<Rightarrow> (gen_then g g', todo''))
              else (g, todo'))))"

text \<open>
  The \<^verbatim>\<open>while todo\<close> loop, observed for at most \<open>fuel\<close> iterations: \<^verbatim>\<open>todo.pop()\<close>
  takes the last state of the list.
\<close>

fun todo_loop :: "query_struct \<Rightarrow> nat \<Rightarrow> token_sequence list \<Rightarrow> token_assignment gen" where
  "todo_loop q fuel [] = gen_yield []"
| "todo_loop q 0 (t # ts) = ([], Unfinished)"
| "todo_loop q (Suc fuel) (t # ts) =
    (case loop_body q (last (t # ts)) (butlast (t # ts)) of
       (g, todo') \<Rightarrow> gen_then g (todo_loop q fuel todo'))"

definition yield_token_assignments :: "query_struct \<Rightarrow> nat \<Rightarrow> token_assignment gen" where
  "yield_token_assignments q fuel =
    (case source q of
       [] \<Rightarrow> gen_raise IndexError
     | p # ps \<Rightarrow>
        todo_loop q fuel
          [\<lparr>seq = [], direction = (if ph_ptype p = PHRASE_ANY then 0 else 1),
            seq_penalty = 0\<rparr>])"

subsection \<open>The tokenizer (\<^verbatim>\<open>icu_tokenizer.py\<close>)\<close>

record query_part =
  qp_token :: pystr
  qp_normalized :: pystr
  qp_penalty :: real

text \<open>
  \<^verbatim>\<open>WordDict\<close> is a \<^verbatim>\<open>defaultdict(list)\<close>: \<^verbatim>\<open>words[w].append(r)\<close> creates the
  entry of a new word.
\<close>

type_synonym word_dict = "pystr \<rightharpoonup> token_range list"

definition dict_entries :: "word_dict \<Rightarrow> pystr \<Rightarrow> token_range list" where
  "dict_entries words w = (case words w of None \<Rightarrow> [] | Some rs \<Rightarrow> rs)"

definition dict_append :: "word_dict \<Rightarrow> pystr \<Rightarrow> token_range \<Rightarrow> word_dict" where
  "dict_append words w r = words(w \<mapsto> dict_entries words w @ [r])"

text \<open>
  The inner loop of \<^verbatim>\<open>extract_words\<close>; its state is the word joined so far, the
  penalty and the dictionary. The indices stay below \<^verbatim>\<open>len(terms)\<close>.
\<close>

definition extract_last ::
  "query_part list \<Rightarrow> nat \<Rightarrow> nat \<Rightarrow> pystr \<times> real \<times> word_dict \<Rightarrow> pystr \<times> real \<times> word_dict"
  where
  "extract_last terms first lst st =
    (case st of
       (word, pen, words) \<Rightarrow>
         (let word' = word @ [SPACE] @ qp_token (terms ! lst);
              pen' = pen + qp_penalty (terms ! (lst - 1))
          in (word', pen',
              dict_append words word'
                \<lparr>tr_start = int first, tr_end = int lst + 1, tr_penalty = Some pen'\<rparr>)))"

definition extract_first :: "query_part list \<Rightarrow> nat \<Rightarrow> word_dict \<Rightarrow> word_dict" where
  "extract_first terms first words =
    (let total = length terms;
         base_penalty = PENALTY_IN_TOKEN_BREAK BREAK_WORD;
         word = qp_token (terms ! first);
         pen = base_penalty;
         words1 = dict_append words word
                    \<lparr>tr_start = int first, tr_end = int first + 1, tr_penalty = Some pen\<rparr>
     in snd (snd (fold (extract_last terms first)
                       [first + 1 ..< min (first + 20) total] (word, pen, words1))))"

definition extract_words :: "query_part list \<Rightarrow> nat \<Rightarrow> word_dict \<Rightarrow> word_dict" where
  "extract_words terms start words =
    fold (extract_first terms) [start ..< length terms] words"

text \<open>
  Modelled from the spec: \<^verbatim>\<open>QueryNode.has_tokens\<close>, \<^verbatim>\<open>TokenList.add_penalty\<close>,
  \<^verbatim>\<open>QueryStruct.add_token\<close> and \<^verbatim>\<open>QueryStruct.iter_token_lists\<close> are missing from the
  sources. A node has tokens for an end and a type when a token list that starts at the
  node has that end and that type. Adding a penalty to a list adds it to each of its
  tokens. A token list groups the tokens of one range and one type: a token is added
  to the list of its range and type, which is created at the end of the node's lists
  when there is none; the phrase type of the node restricts the roles that its tokens
  may take, and the restriction is the parameter \<open>admits\<close>. The token lists are visited
  node by node, in the order of the nodes and of the lists of each node.
\<close>

definition has_tokens :: "query_node \<Rightarrow> int \<Rightarrow> token_type list \<Rightarrow> bool" where
  "has_tokens node e ttypes =
    list_ex (\<lambda>l. tl_end l = e \<and> tl_ttype l \<in> set ttypes) (starting node)"

definition add_penalty :: "token_list \<Rightarrow> real \<Rightarrow> token_list" where
  "add_penalty tlist p =
    tlist\<lparr>tl_tokens := map (\<lambda>t. t\<lparr>penalty := penalty t + p\<rparr>) (tl_tokens tlist)\<rparr>"

fun insert_token :: "int \<Rightarrow> token_type \<Rightarrow> icu_token \<Rightarrow> token_list list \<Rightarrow> token_list list"
  where
  "insert_token e tt tok [] = [\<lparr>tl_end = e, tl_ttype = tt, tl_tokens = [tok]\<rparr>]"
| "insert_token e tt tok (l # ls) =
    (if tl_end l = e \<and> tl_ttype l = tt
     then l\<lparr>tl_tokens := tl_tokens l @ [tok]\<rparr> # ls
     else l # insert_token e tt tok ls)"

definition add_token ::
  "(phrase_type \<Rightarrow> token_type \<Rightarrow> bool) \<Rightarrow> query_struct \<Rightarrow> token_range \<Rightarrow> token_type
   \<Rightarrow> icu_token \<Rightarrow> pyerror + query_struct" where
  "add_token admits q tr tt tok =
    (case norm_index (length (nodes q)) (tr_start tr) of
       None \<Rightarrow> Inl IndexError
     | Some j \<Rightarrow>
        (let snode = nodes q ! j
         in if admits (ptype snode) tt
            then Inr (q\<lparr>nodes := (nodes q)
                          [j := snode\<lparr>starting :=
                                   insert_token (tr_end tr) tt tok (starting snode)\<rparr>]\<rparr>)
            else Inr q))"

text \<open>A loop over a list whose body may raise.\<close>

fun fold_err :: "('a \<Rightarrow> 's \<Rightarrow> pyerror + 's) \<Rightarrow> 'a list \<Rightarrow> 's \<Rightarrow> pyerror + 's" where
  "fold_err f [] s = Inr s"
| "fold_err f (x # xs) s = (case f x s of Inl e \<Rightarrow> Inl e | Inr s' \<Rightarrow> fold_err f xs s')"

text \<open>
  The body of the loop of \<^verbatim>\<open>add_extra_tokens\<close> for the index \<open>i\<close>;
  \<^verbatim>\<open>zip(parts, query.nodes, range(1000))\<close> stops at the shortest of the three.
\<close>

definition extra_token :: "pystr \<Rightarrow> icu_token" where
  "extra_token w =
    \<lparr>penalty = 0.5, token = Some 0, count = PInt 1, addr_count = PInt 1,
     lookup_word = w, word_token = w, info = None\<rparr>"

definition add_extra_step ::
  "(pychar \<Rightarrow> bool) \<Rightarrow> (phrase_type \<Rightarrow> token_type \<Rightarrow> bool) \<Rightarrow> query_part list \<Rightarrow> nat
   \<Rightarrow> query_struct \<Rightarrow> pyerror + query_struct" where
  "add_extra_step dig admits parts i q =
    (let part = parts ! i; node = nodes q ! i
     in if length (qp_token part) \<le> 4 \<and> str_isdigit dig (qp_token part)
           \<and> \<not> has_tokens node (int i + 1) [TOKEN_HOUSENUMBER]
        then add_token admits q (TokenRange (int i) (int i + 1)) TOKEN_HOUSENUMBER
               (extra_token (qp_token part))
        else Inr q)"

definition add_extra_tokens ::
  "(pychar \<Rightarrow> bool) \<Rightarrow> (phrase_type \<Rightarrow> token_type \<Rightarrow> bool) \<Rightarrow> query_struct
   \<Rightarrow> query_part list \<Rightarrow> pyerror + query_struct" where
  "add_extra_tokens dig admits q parts =
    fold_err (add_extra_step dig admits parts)
      [0 ..< min (length parts) (min (length (nodes q)) 1000)] q"

text \<open>
  \<^verbatim>\<open>difflib.SequenceMatcher(a, b).get_opcodes()\<close> belongs to the Python library; it is
  the parameter \<open>opcodes\<close> of \<^verbatim>\<open>rematch\<close>.
\<close>

datatype optag = OpReplace | OpDelete | OpInsert | OpEqual

type_synonym opcode = "optag \<times> int \<times> int \<times> int \<times> int"

definition opcode_distance :: "pystr \<Rightarrow> opcode \<Rightarrow> int" where
  "opcode_distance lw oc =
    (case oc of
       (tag, afrom, ato, bfrom, bto) \<Rightarrow>
         (if (tag = OpDelete \<or> tag = OpInsert) \<and> (afrom = 0 \<or> ato = int (length lw)) then 1
          else if tag = OpReplace then max (ato - afrom) (bto - bfrom)
          else if tag \<noteq> OpEqual then \<bar>(ato - afrom) - (bto - bfrom)\<bar>
          else 0))"

definition rematch :: "(pystr \<Rightarrow> pystr \<Rightarrow> opcode list) \<Rightarrow> icu_token \<Rightarrow> pystr \<Rightarrow> icu_token" where
  "rematch opcodes tok nrm =
    (if lookup_word tok = [] then tok
     else
       (let distance = sum_list (map (opcode_distance (lookup_word tok))
                                    (opcodes (lookup_word tok) nrm))
        in tok\<lparr>penalty := penalty tok
                  + real_of_int distance / real (length (lookup_word tok))\<rparr>))"

text \<open>
  The first branch of \<^verbatim>\<open>rerank_tokens\<close>, for a POSTCODE list \<open>tlist\<close>: the loop over
  the lists \<open>repl\<close> that start at the node. \<^verbatim>\<open>tlist.tokens[0]\<close> is read only when
  the conditions before it hold.
\<close>

fun rerank_postcode :: "token_list \<Rightarrow> token_list list \<Rightarrow> pyerror + token_list list" where
  "rerank_postcode tlist [] = Inr []"
| "rerank_postcode tlist (repl # rest) =
    (if tl_end repl = tl_end tlist \<and> tl_ttype repl \<noteq> TOKEN_POSTCODE then
       (if tl_ttype repl \<noteq> TOKEN_HOUSENUMBER then
          map_sum id (Cons (add_penalty repl 0.39)) (rerank_postcode tlist rest)
        else
          (case tl_tokens tlist of
             [] \<Rightarrow> Inl IndexError
           | t0 # ts \<Rightarrow>
              (if length (lookup_word t0) > 4
               then map_sum id (Cons (add_penalty repl 0.39)) (rerank_postcode tlist rest)
               else map_sum id (Cons repl) (rerank_postcode tlist rest))))
     else map_sum id (Cons repl) (rerank_postcode tlist rest))"

text \<open>The second branch, for a short HOUSENUMBER list with a digit.\<close>

definition rerank_housenumber :: "real \<Rightarrow> token_list \<Rightarrow> token_list list \<Rightarrow> token_list list" where
  "rerank_housenumber pen0 tlist repls =
    map (\<lambda>repl. if tl_end repl = tl_end tlist \<and> tl_ttype repl \<noteq> TOKEN_HOUSENUMBER
                then add_penalty repl (0.5 - pen0) else repl) repls"

text \<open>The normalized string of the third branch.\<close>

fun rerank_norm :: "query_node \<Rightarrow> query_part list \<Rightarrow> int list \<Rightarrow> pystr \<Rightarrow> pyerror + pystr" where
  "rerank_norm node parts [] nrm = Inr nrm"
| "rerank_norm node parts (j # js) nrm =
    (if btype node \<noteq> BREAK_TOKEN then
       (case py_index parts j of
          Inl e \<Rightarrow> Inl e
        | Inr p \<Rightarrow> rerank_norm node parts js (nrm @ [SPACE, SPACE] @ qp_normalized p))
     else rerank_norm node parts js nrm)"

text \<open>The third branch: the tokens of the list are matched against the normalized terms.\<close>

definition rerank_rematch ::
  "(pystr \<Rightarrow> pystr \<Rightarrow> opcode list) \<Rightarrow> query_part list \<Rightarrow> nat \<Rightarrow> nat \<Rightarrow> query_struct
   \<Rightarrow> pyerror + query_struct" where
  "rerank_rematch opcodes parts i k q =
    (let node = nodes q ! i; tlist = starting node ! k
     in if tl_ttype tlist \<notin> {TOKEN_COUNTRY, TOKEN_PARTIAL} then
          (case py_index parts (int i) of
             Inl e \<Rightarrow> Inl e
           | Inr p \<Rightarrow>
              (case rerank_norm node parts [int i + 1 .. tl_end tlist - 1] (qp_normalized p) of
                 Inl e \<Rightarrow> Inl e
               | Inr nrm \<Rightarrow>
                  Inr (q\<lparr>nodes := (nodes q)
                        [i := node\<lparr>starting := (starting node)
                               [k := tlist\<lparr>tl_tokens :=
                                       map (\<lambda>t. rematch opcodes t nrm) (tl_tokens tlist)\<rparr>]\<rparr>]\<rparr>)))
        else Inr q)"

text \<open>
  The body of the loop of \<^verbatim>\<open>rerank_tokens\<close> for the \<open>k\<close>-th list of node \<open>i\<close>. The
  loop changes penalties only, so the lists that it visits are those of the query at
  its start.
\<close>

definition rerank_step ::
  "(pychar \<Rightarrow> bool) \<Rightarrow> (pystr \<Rightarrow> pystr \<Rightarrow> opcode list) \<Rightarrow> query_part list \<Rightarrow> nat \<times> nat
   \<Rightarrow> query_struct \<Rightarrow> pyerror + query_struct" where
  "rerank_step dig opcodes parts ik q =
    (case ik of
       (i, k) \<Rightarrow>
        (let node = nodes q ! i; tlist = starting node ! k
         in if tl_ttype tlist = TOKEN_POSTCODE then
              (case rerank_postcode tlist (starting node) of
                 Inl e \<Rightarrow> Inl e
               | Inr sts \<Rightarrow> Inr (q\<lparr>nodes := (nodes q)[i := node\<lparr>starting := sts\<rparr>]\<rparr>))
            else if tl_ttype tlist = TOKEN_HOUSENUMBER then
              (case tl_tokens tlist of
                 [] \<Rightarrow> Inl IndexError
               | t0 # ts \<Rightarrow>
                  (if length (lookup_word t0) \<le> 3 then
                     (if list_ex dig (lookup_word t0)
                      then Inr (q\<lparr>nodes := (nodes q)
                                    [i := node\<lparr>starting :=
                                           rerank_housenumber (penalty t0) tlist
                                             (starting node)\<rparr>]\<rparr>)
                      else Inr q)
                   else rerank_rematch opcodes parts i k q))
            else rerank_rematch opcodes parts i k q))"

definition iter_token_lists :: "query_struct \<Rightarrow> (nat \<times> nat) list" where
  "iter_token_lists q =
    concat (map (\<lambda>i. map (\<lambda>k. (i, k)) [0 ..< length (starting (nodes q ! i))])
                [0 ..< length (nodes q)])"

definition rerank_tokens ::
  "(pychar \<Rightarrow> bool) \<Rightarrow> (pystr \<Rightarrow> pystr \<Rightarrow> opcode list) \<Rightarrow> query_struct \<Rightarrow> query_part list
   \<Rightarrow> pyerror + query_struct" where
  "rerank_tokens dig opcodes q parts =
    fold_err (rerank_step dig opcodes parts) (iter_token_lists q) q"

subsection \<open>The near search (\<^verbatim>\<open>NearSearch.lookup\<close> in \<^verbatim>\<open>db_searches.py\<close>)\<close>

datatype source_table = PLACEX | OSMLINE | TIGER | POSTCODE | COUNTRY

text \<open>
  Modelled from the spec: the result class and \<^verbatim>\<open>Bbox\<close> are missing from the sources;
  a result carries the fields that \<^verbatim>\<open>lookup\<close> reads, and a bounding box its area.
\<close>

record bbox =
  area :: real

record search_result =
  source_table :: source_table
  accuracy :: real
  rank_search :: int
  rank_address :: int
  result_bbox :: "bbox option"
  place_id :: "int option"

text \<open>\<^verbatim>\<open>base.sort(key=lambda r: (r.accuracy, r.rank_search))\<close>: a stable sort.\<close>

definition sort_base :: "search_result list \<Rightarrow> search_result list" where
  "sort_base base = sort_key (\<lambda>r. (accuracy r, rank_search r)) base"

definition rank_window :: "search_result \<Rightarrow> int \<times> int" where
  "rank_window r0 =
    (if rank_address r0 = 0 then (0, 0)
     else if rank_address r0 < 26 then (1, min 25 (rank_address r0 + 4))
     else (26, 30))"

definition retained :: "search_result list \<Rightarrow> search_result list" where
  "retained sorted_base =
    (case sorted_base of
       [] \<Rightarrow> []
     | r0 # rest \<Rightarrow>
        (let max_accuracy = accuracy r0 + 0.5;
             (min_rank, max_rank) = rank_window r0
         in filter (\<lambda>r. source_table r = PLACEX
                        \<and> accuracy r \<le> max_accuracy
                        \<and> (case result_bbox r of None \<Rightarrow> False | Some b \<Rightarrow> area b < 20)
                        \<and> rank_address r \<ge> min_rank
                        \<and> rank_address r \<le> max_rank) sorted_base))"

text \<open>
  \<^verbatim>\<open>[b.place_id for b in base[:5] if b.place_id]\<close>: a place id that is \<^verbatim>\<open>None\<close> or 0
  is left out.
\<close>

definition baseids :: "search_result list \<Rightarrow> int list" where
  "baseids base =
    concat (map (\<lambda>b. case place_id b of None \<Rightarrow> [] | Some p \<Rightarrow> if p \<noteq> 0 then [p] else [])
                (take 5 base))"

text \<open>
  The part of \<^verbatim>\<open>NearSearch.lookup\<close> before the category lookups: the anchors handed
  to \<^verbatim>\<open>lookup_category\<close>, or \<open>None\<close> when no category lookup is made.
\<close>

definition near_anchors :: "search_result list \<Rightarrow> int list option" where
  "near_anchors base =
    (if base = [] then None
     else
       (let kept = retained (sort_base base)
        in if kept \<noteq> [] then Some (baseids kept) else None))"

subsection \<open>Notions used in the statements\<close>

text \<open>The token slots of a range, and all the ranges of an assignment, role by role.\<close>

definition range_slots :: "token_range \<Rightarrow> int set" where
  "range_slots r = {tr_start r ..< tr_end r}"

definition opt_list :: "'a option \<Rightarrow> 'a list" where
  "opt_list x = (case x of None \<Rightarrow> [] | Some v \<Rightarrow> [v])"

definition assignment_ranges :: "token_assignment \<Rightarrow> token_range list" where
  "assignment_ranges a =
    opt_list (name a) @ address a @ opt_list (housenumber a) @ opt_list (postcode a)
    @ opt_list (country a) @ opt_list (near_item a) @ opt_list (qualifier a)"

text \<open>The range that fills the role of a token type in an assignment.\<close>

fun role :: "token_type \<Rightarrow> token_assignment \<Rightarrow> token_range option" where
  "role TOKEN_HOUSENUMBER a = housenumber a"
| "role TOKEN_POSTCODE a = postcode a"
| "role TOKEN_COUNTRY a = country a"
| "role TOKEN_NEAR_ITEM a = near_item a"
| "role TOKEN_QUALIFIER a = qualifier a"
| "role TOKEN_PARTIAL a = None"
| "role TOKEN_WORD a = None"

text \<open>
  The tokenizer makes token lists for windows \<open>[i, j)\<close> with \<open>i < j\<close> only
  (\<^verbatim>\<open>extract_words\<close> and \<^verbatim>\<open>add_extra_tokens\<close>): every token list ends after the node
  at which it starts.
\<close>

definition lists_end_later :: "query_struct \<Rightarrow> bool" where
  "lists_end_later q =
    list_all (\<lambda>(i, node). list_all (\<lambda>l. int i < tl_end l) (starting node))
      (enumerate 0 (nodes q))"

text \<open>
  The ranges of a sequence follow each other from slot \<open>a\<close> on, and none is empty.
\<close>

fun contiguous :: "int \<Rightarrow> typed_range list \<Rightarrow> bool" where
  "contiguous a [] = True"
| "contiguous a (r # rs) =
    (tr_start (trange r) = a \<and> a < tr_end (trange r) \<and> contiguous (tr_end (trange r)) rs)"

definition type_count :: "token_type \<Rightarrow> typed_range list \<Rightarrow> nat" where
  "type_count t rs = length (filter (\<lambda>r. ttype r = t) rs)"

definition single_types :: "token_type list" where
  "single_types =
    [TOKEN_HOUSENUMBER, TOKEN_POSTCODE, TOKEN_COUNTRY, TOKEN_NEAR_ITEM, TOKEN_QUALIFIER]"

text \<open>
  The sequences that \<^verbatim>\<open>advance\<close> builds from the empty sequence, whatever token
  types, end positions, breaks and break penalties it is given.
\<close>

inductive built :: "token_sequence \<Rightarrow> bool" where
  initial: "built \<lparr>seq = [], direction = d, seq_penalty = p\<rparr>"
| step: "built s \<Longrightarrow> advance s t e force_break break_penalty = Some s' \<Longrightarrow> built s'"

text \<open>The slots of a range as a list, and the slots of a list of ranges, one after the other.\<close>

definition range_list :: "token_range \<Rightarrow> int list" where
  "range_list r = [tr_start r .. tr_end r - 1]"

definition covered :: "token_range list \<Rightarrow> int list" where
  "covered rs = concat (map range_list rs)"

text \<open>
  The shapes of the assignments that \<^verbatim>\<open>get_assignments\<close> yields for the assignment
  \<open>base\<close> of a sequence: \<open>base\<close> with a penalty; the first or the last address range
  moved to the name; the first or the last address range split at an inner position
  into a name and an address.
\<close>

definition variant_of :: "token_assignment \<Rightarrow> token_assignment \<Rightarrow> bool" where
  "variant_of base a \<longleftrightarrow>
     (\<exists>p. a = base\<lparr>ta_penalty := p\<rparr>)
   \<or> (\<exists>p first rest. address base = first # rest
         \<and> a = base\<lparr>ta_penalty := p, name := Some first, address := rest\<rparr>)
   \<or> (\<exists>p first rest i. address base = first # rest
         \<and> tr_start first < i \<and> i < tr_end first
         \<and> a = base\<lparr>ta_penalty := p, name := Some (replace_end first i),
                    address := replace_start first i # rest\<rparr>)
   \<or> (\<exists>p. address base \<noteq> []
         \<and> a = base\<lparr>ta_penalty := p, name := Some (last (address base)),
                    address := butlast (address base)\<rparr>)
   \<or> (\<exists>p i. address base \<noteq> []
         \<and> tr_start (last (address base)) < i \<and> i < tr_end (last (address base))
         \<and> a = base\<lparr>ta_penalty := p, name := Some (replace_start (last (address base)) i),
                    address := butlast (address base)
                               @ [replace_end (last (address base)) i]\<rparr>)"

text \<open>
  The states of the enumeration: sequences built by \<^verbatim>\<open>advance\<close> whose ranges follow
  each other from slot 0. An assignment is emitted for a query when
  \<^verbatim>\<open>get_assignments\<close> yields it for a state that ends at the last slot and that has
  the ranges of such a sequence; its direction and penalty are those left by
  \<^verbatim>\<open>recheck_sequence\<close>.
\<close>

definition reached :: "token_sequence \<Rightarrow> bool" where
  "reached s \<longleftrightarrow> built s \<and> contiguous 0 (seq s)"

definition emitted :: "query_struct \<Rightarrow> token_assignment \<Rightarrow> bool" where
  "emitted q a \<longleftrightarrow>
    (\<exists>s st. reached st \<and> seq s = seq st \<and> end_pos s = num_token_slots q
       \<and> a \<in> set (fst (get_assignments s q)))"

text \<open>
  What the loop of \<^verbatim>\<open>add_extra_tokens\<close> does to the node of the index \<open>i\<close>.
\<close>

definition extra_node ::
  "(pychar \<Rightarrow> bool) \<Rightarrow> (phrase_type \<Rightarrow> token_type \<Rightarrow> bool) \<Rightarrow> query_part list \<Rightarrow> nat
   \<Rightarrow> query_node \<Rightarrow> query_node" where
  "extra_node dig admits parts i node =
    (if length (qp_token (parts ! i)) \<le> 4 \<and> str_isdigit dig (qp_token (parts ! i))
        \<and> \<not> has_tokens node (int i + 1) [TOKEN_HOUSENUMBER]
        \<and> admits (ptype node) TOKEN_HOUSENUMBER
     then node\<lparr>starting := insert_token (int i + 1) TOKEN_HOUSENUMBER
                               (extra_token (qp_token (parts ! i))) (starting node)\<rparr>
     else node)"

text \<open>
  The window of \<open>n + 1\<close> terms from the term \<open>first\<close> on: its terms joined by spaces,
  its penalty (0.1 and the break penalties between its terms) and its token range.
\<close>

fun window_word :: "query_part list \<Rightarrow> nat \<Rightarrow> nat \<Rightarrow> pystr" where
  "window_word terms first 0 = qp_token (terms ! first)"
| "window_word terms first (Suc n) =
    window_word terms first n @ [SPACE] @ qp_token (terms ! (first + Suc n))"

fun window_penalty :: "query_part list \<Rightarrow> nat \<Rightarrow> nat \<Rightarrow> real" where
  "window_penalty terms first 0 = 0.1"
| "window_penalty terms first (Suc n) =
    window_penalty terms first n + qp_penalty (terms ! (first + n))"

definition window_range :: "query_part list \<Rightarrow> nat \<Rightarrow> nat \<Rightarrow> token_range" where
  "window_range terms first n =
    \<lparr>tr_start = int first, tr_end = int first + int n + 1,
     tr_penalty = Some (window_penalty terms first n)\<rparr>"

definition window_entry :: "query_part list \<Rightarrow> nat \<Rightarrow> nat \<Rightarrow> pystr \<times> token_range" where
  "window_entry terms first n = (window_word terms first n, window_range terms first n)"

definition log_entry :: "pystr \<times> token_range \<Rightarrow> word_dict \<Rightarrow> word_dict" where
  "log_entry e words = dict_append words (fst e) (snd e)"

text \<open>The windows from the term \<open>start\<close> on, of at most 20 terms each, term by term.\<close>

definition windows :: "query_part list \<Rightarrow> nat \<Rightarrow> (pystr \<times> token_range) list" where
  "windows terms start =
    concat (map (\<lambda>first. map (window_entry terms first) [0 ..< min 20 (length terms - first)])
                [start ..< length terms])"

text \<open>The entries that \<^verbatim>\<open>extract_words\<close> adds to the list of a word.\<close>

definition added_ranges ::
  "query_part list \<Rightarrow> nat \<Rightarrow> word_dict \<Rightarrow> pystr \<Rightarrow> token_range list" where
  "added_ranges terms start words w =
    drop (length (dict_entries words w)) (dict_entries (extract_words terms start words) w)"

subsection \<open>Example inputs\<close>

text \<open>A house number row \<^verbatim>\<open>a b\<close> whose stored counts are 0 and negative.\<close>

definition row_h :: word_row where
  "row_h =
    \<lparr>row_word_id = Some 7, row_word_token = pystr ''a b'', row_type = pystr ''H'',
     row_word = Some (pystr ''a b''),
     row_info = Some [(pystr ''count'', JInt 0), (pystr ''addr_count'', JInt (- 3))]\<rparr>"

definition tok_h :: icu_token where
  "tok_h =
    \<lparr>penalty = 0.7, token = Some 7, count = PInt 1, addr_count = PInt 1,
     lookup_word = pystr ''a b'', word_token = pystr ''a b'',
     info = Some [(pystr ''count'', JInt 0), (pystr ''addr_count'', JInt (- 3))]\<rparr>"

text \<open>
  Three results of an inner search: a street of rank 26 found with accuracy 0.3, a city
  of rank 16 found with accuracy 0.1 and a postcode row.
\<close>

definition res_street :: search_result where
  "res_street =
    \<lparr>source_table = PLACEX, accuracy = 0.3, rank_search = 26, rank_address = 26,
     result_bbox = Some \<lparr>area = 0.001\<rparr>, place_id = Some 11\<rparr>"

definition res_city :: search_result where
  "res_city =
    \<lparr>source_table = PLACEX, accuracy = 0.1, rank_search = 16, rank_address = 16,
     result_bbox = Some \<lparr>area = 0.5\<rparr>, place_id = Some 12\<rparr>"

definition res_postcode :: search_result where
  "res_postcode =
    \<lparr>source_table = POSTCODE, accuracy = 0.1, rank_search = 21, rank_address = 5,
     result_bbox = Some \<lparr>area = 0.1\<rparr>, place_id = Some 13\<rparr>"

definition inner_results :: "search_result list" where
  "inner_results = [res_street, res_city, res_postcode]"

text \<open>
  The query \<^verbatim>\<open>main 12345\<close>: two slots, a partial token at each of them and a
  postcode token for the second.
\<close>

definition simple_token :: "pystr \<Rightarrow> real \<Rightarrow> icu_token" where
  "simple_token w p =
    \<lparr>penalty = p, token = Some 1, count = PInt 1, addr_count = PInt 1,
     lookup_word = w, word_token = w, info = None\<rparr>"

definition main_postcode_query :: query_struct where
  "main_postcode_query =
    \<lparr>source = [\<lparr>ph_ptype = PHRASE_ANY, ph_text = pystr ''main 12345''\<rparr>],
     nodes =
       [\<lparr>btype = BREAK_START, ptype = PHRASE_ANY, starting = [],
         partial = Some (simple_token (pystr ''main'') 0.3)\<rparr>,
        \<lparr>btype = BREAK_WORD, ptype = PHRASE_ANY,
         starting = [\<lparr>tl_end = 2, tl_ttype = TOKEN_POSTCODE,
                      tl_tokens = [simple_token (pystr ''12345'') 0.1]\<rparr>],
         partial = Some (simple_token (pystr ''12345'') 0.3)\<rparr>,
        \<lparr>btype = BREAK_END, ptype = PHRASE_ANY, starting = [], partial = None\<rparr>],
     dir_penalty = 0\<rparr>"

text \<open>The sequence address, postcode of that query, with the penalty of the word break.\<close>

definition address_postcode_seq :: token_sequence where
  "address_postcode_seq =
    \<lparr>seq = [\<lparr>ttype = TOKEN_PARTIAL, trange = TokenRange 0 1\<rparr>,
            \<lparr>ttype = TOKEN_POSTCODE, trange = TokenRange 1 2\<rparr>],
     direction = 0, seq_penalty = 0.1\<rparr>"

definition address_postcode_base :: token_assignment where
  "address_postcode_base =
    \<lparr>ta_penalty = 0, name = None, address = [TokenRange 0 1], housenumber = None,
     postcode = Some (TokenRange 1 2), country = None, near_item = None,
     qualifier = None\<rparr>"

text \<open>The postcode search that the enumerator yields for the query.\<close>

definition postcode_search :: token_assignment where
  "postcode_search = address_postcode_base\<lparr>ta_penalty := 0.2\<rparr>"

text \<open>A sequence with one address range of 51 slots.\<close>

definition long_address_seq :: token_sequence where
  "long_address_seq =
    \<lparr>seq = [\<lparr>ttype = TOKEN_PARTIAL, trange = TokenRange 0 51\<rparr>],
     direction = 0, seq_penalty = 0\<rparr>"

text \<open>The sequence of the first slot as an address, before the postcode is appended.\<close>

definition address_seq :: token_sequence where
  "address_seq =
    \<lparr>seq = [\<lparr>ttype = TOKEN_PARTIAL, trange = TokenRange 0 1\<rparr>],
     direction = 0, seq_penalty = 0\<rparr>"

text \<open>
  The query \<^verbatim>\<open>12345\<close>: one slot, with a postcode token and a house number token for
  it. For equal strings \<^verbatim>\<open>get_opcodes\<close> returns one \<^verbatim>\<open>equal\<close> block.
\<close>

definition zip_query :: query_struct where
  "zip_query =
    \<lparr>source = [\<lparr>ph_ptype = PHRASE_ANY, ph_text = pystr ''12345''\<rparr>],
     nodes =
       [\<lparr>btype = BREAK_START, ptype = PHRASE_ANY,
         starting = [\<lparr>tl_end = 1, tl_ttype = TOKEN_POSTCODE,
                      tl_tokens = [simple_token (pystr ''12345'') 0.1]\<rparr>,
                     \<lparr>tl_end = 1, tl_ttype = TOKEN_HOUSENUMBER,
                      tl_tokens = [simple_token (pystr ''12345'') 0.2]\<rparr>],
         partial = None\<rparr>,
        \<lparr>btype = BREAK_END, ptype = PHRASE_ANY, starting = [], partial = None\<rparr>],
     dir_penalty = 0\<rparr>"

definition zip_query_reranked :: query_struct where
  "zip_query_reranked =
    \<lparr>source = [\<lparr>ph_ptype = PHRASE_ANY, ph_text = pystr ''12345''\<rparr>],
     nodes =
       [\<lparr>btype = BREAK_START, ptype = PHRASE_ANY,
         starting = [\<lparr>tl_end = 1, tl_ttype = TOKEN_POSTCODE,
                      tl_tokens = [simple_token (pystr ''12345'') 0.1]\<rparr>,
                     \<lparr>tl_end = 1, tl_ttype = TOKEN_HOUSENUMBER,
                      tl_tokens = [simple_token (pystr ''12345'') 0.59]\<rparr>],
         partial = None\<rparr>,
        \<lparr>btype = BREAK_END, ptype = PHRASE_ANY, starting = [], partial = None\<rparr>],
     dir_penalty = 0\<rparr>"

definition zip_parts :: "query_part list" where
  "zip_parts =
    [\<lparr>qp_token = pystr ''12345'', qp_normalized = pystr ''12345'', qp_penalty = 0.5\<rparr>]"

definition equal_opcodes :: "pystr \<Rightarrow> pystr \<Rightarrow> opcode list" where
  "equal_opcodes a b = [(OpEqual, 0, int (length a), 0, int (length b))]"

text \<open>
  A query of 1001 terms \<^verbatim>\<open>1\<close> without any token, and the query of the single term
  \<^verbatim>\<open>12\<close>. Every phrase type admits every token type.
\<close>

definition bare_node :: query_node where
  "bare_node = \<lparr>btype = BREAK_WORD, ptype = PHRASE_ANY, starting = [], partial = None\<rparr>"

definition long_query :: query_struct where
  "long_query =
    \<lparr>source = [\<lparr>ph_ptype = PHRASE_ANY, ph_text = []\<rparr>],
     nodes = replicate 1002 bare_node, dir_penalty = 0\<rparr>"

definition long_parts :: "query_part list" where
  "long_parts =
    replicate 1001 \<lparr>qp_token = pystr ''1'', qp_normalized = pystr ''1'', qp_penalty = 0.1\<rparr>"

definition number_query :: query_struct where
  "number_query =
    \<lparr>source = [\<lparr>ph_ptype = PHRASE_ANY, ph_text = pystr ''12''\<rparr>],
     nodes = [bare_node, bare_node], dir_penalty = 0\<rparr>"

definition number_parts :: "query_part list" where
  "number_parts =
    [\<lparr>qp_token = pystr ''12'', qp_normalized = pystr ''12'', qp_penalty = 0.5\<rparr>]"

definition admits_all :: "phrase_type \<Rightarrow> token_type \<Rightarrow> bool" where
  "admits_all p t = True"

text \<open>Twenty terms \<^verbatim>\<open>a\<close>, and the three terms \<^verbatim>\<open>new york city\<close>.\<close>

definition twenty_terms :: "query_part list" where
  "twenty_terms =
    replicate 20 \<lparr>qp_token = pystr ''a'', qp_normalized = pystr ''a'', qp_penalty = 0.1\<rparr>"

definition three_terms :: "query_part list" where
  "three_terms =
    [\<lparr>qp_token = pystr ''new'', qp_normalized = pystr ''new'', qp_penalty = 0.1\<rparr>,
     \<lparr>qp_token = pystr ''york'', qp_normalized = pystr ''york'', qp_penalty = 0.1\<rparr>,
     \<lparr>qp_token = pystr ''city'', qp_normalized = pystr ''city'', qp_penalty = 0.5\<rparr>]"

text \<open>The sequence postcode, address over two slots, and its assignment.\<close>

definition postcode_address_seq :: token_sequence where
  "postcode_address_seq =
    \<lparr>seq = [\<lparr>ttype = TOKEN_POSTCODE, trange = TokenRange 0 1\<rparr>,
            \<lparr>ttype = TOKEN_PARTIAL, trange = TokenRange 1 2\<rparr>],
     direction = 0, seq_penalty = 0.1\<rparr>"

definition postcode_address_base :: token_assignment where
  "postcode_address_base =
    \<lparr>ta_penalty = 0, name = None, address = [TokenRange 1 2], housenumber = None,
     postcode = Some (TokenRange 0 1), country = None, near_item = None,
     qualifier = None\<rparr>"

text \<open>
  The query \<^verbatim>\<open>12\<close> given as a postcode phrase, with the restriction that a postcode
  phrase takes postcode tokens only.
\<close>

definition postcode_phrase_query :: query_struct where
  "postcode_phrase_query =
    \<lparr>source = [\<lparr>ph_ptype = PHRASE_POSTCODE, ph_text = pystr ''12''\<rparr>],
     nodes = [bare_node\<lparr>ptype := PHRASE_POSTCODE\<rparr>, bare_node\<lparr>ptype := PHRASE_POSTCODE\<rparr>],
     dir_penalty = 0\<rparr>"

definition postcode_phrase_only :: "phrase_type \<Rightarrow> token_type \<Rightarrow> bool" where
  "postcode_phrase_only p t = (p \<noteq> PHRASE_POSTCODE \<or> t = TOKEN_POSTCODE)"

section \<open>Properties\<close>

subsection \<open>Tokens made from rows of the word table\<close>

lemma sum_tenths: "sum_list (map (\<lambda>c. (0.1::real)) xs) = 0.1 * real (length xs)"
  by (induction xs) (simp_all add: algebra_simps)

lemma from_db_row_penalty:
  "from_db_row dig row base = Inr tok \<Longrightarrow> penalty tok = base + type_penalty dig row"
  by (auto simp: from_db_row_def Let_def split: sum.splits)

lemma max1_ge: "max1 v = Inr n \<Longrightarrow> 1 \<le> num_value n"
  by (cases v) (auto split: if_splits)

lemma from_db_row_h: "from_db_row ascii_digit row_h 0.1 = Inr tok_h"
  by (simp add: from_db_row_def row_h_def tok_h_def pystr_def Let_def row_lookup_word_def
      row_lookup_value_def dict_get_def type_penalty_def ascii_digit_def SPACE_def AT_SIGN_def)

text \<open>
  C9. The token made from a row of type \<^verbatim>\<open>H\<close> has the base penalty, plus 0.1 for each
  character of the word token that is neither a space nor a digit, plus
  0.2 * (length of the word token - 1) when no character of the word token is a digit.
\<close>

theorem housenumber_row_penalty:
  assumes "row_type row = pystr ''H''"
    and "from_db_row dig row base = Inr tok"
  shows "penalty tok = base
      + 0.1 * real (length (filter (\<lambda>c. c \<noteq> SPACE \<and> \<not> dig c) (row_word_token row)))
      + (if \<forall>c \<in> set (row_word_token row). \<not> dig c
         then 0.2 * real_of_int (int (length (row_word_token row)) - 1) else 0)"
proof -
  have "pystr ''H'' \<noteq> pystr ''w''" "pystr ''H'' \<noteq> pystr ''W''"
    by (simp_all add: pystr_def)
  with assms(1) have "type_penalty dig row =
      sum_list (map (\<lambda>c. 0.1) (filter (\<lambda>c. c \<noteq> SPACE \<and> \<not> dig c) (row_word_token row)))
      + (if list_all (\<lambda>c. \<not> dig c) (row_word_token row)
         then 0.2 * real_of_int (int (length (row_word_token row)) - 1) else 0)"
    by (simp add: type_penalty_def)
  with from_db_row_penalty [OF assms(2)] show ?thesis
    by (simp add: sum_tenths list_all_iff)
qed

theorem housenumber_row_penalty_witness:
  "row_type row_h = pystr ''H'' \<and> from_db_row ascii_digit row_h 0.1 = Inr tok_h
   \<and> penalty tok_h = 0.1 + 0.1 * 2 + 0.2 * 2"
proof -
  have t: "row_type row_h = pystr ''H''"
    by (simp add: row_h_def)
  from housenumber_row_penalty [OF t from_db_row_h] show ?thesis
    using t from_db_row_h by (simp add: tok_h_def)
qed

text \<open>
  C10. Every token made from a row of the word table has a count and an address count
  of at least 1, whatever the info field of the row holds; a row whose stored count
  cannot be compared with a number makes no token.
\<close>

theorem from_db_row_counts:
  assumes "from_db_row dig row base = Inr tok"
  shows "1 \<le> num_value (count tok) \<and> 1 \<le> num_value (addr_count tok)"
  using assms
  by (auto simp: from_db_row_def Let_def split: sum.splits dest: max1_ge)

theorem from_db_row_counts_witness:
  "from_db_row ascii_digit row_h 0.1 = Inr tok_h
   \<and> 1 \<le> num_value (count tok_h) \<and> 1 \<le> num_value (addr_count tok_h)
   \<and> dict_get (the (row_info row_h)) (pystr ''count'') (JInt 1) = JInt 0"
  using from_db_row_counts [OF from_db_row_h] from_db_row_h
  by (simp add: row_h_def dict_get_def pystr_def)

subsection \<open>The anchors of the near search\<close>

lemma sort_base_hd_min:
  assumes "r \<in> set base"
  shows "(accuracy (hd (sort_base base)), rank_search (hd (sort_base base)))
         \<le> (accuracy r, rank_search r)"
proof -
  let ?f = "\<lambda>r. (accuracy r, rank_search r)"
  have "sorted (map ?f (sort_base base))"
    unfolding sort_base_def by (rule sorted_sort_key)
  moreover have "r \<in> set (sort_base base)"
    using assms by (simp add: sort_base_def)
  ultimately show ?thesis
    by (cases "sort_base base") auto
qed

lemma sort_base_hd_in:
  assumes "base \<noteq> []"
  shows "hd (sort_base base) \<in> set base"
proof -
  have "set (sort_base base) = set base" by (simp add: sort_base_def)
  moreover have "sort_base base \<noteq> []"
    using assms calculation by (metis set_empty)
  ultimately show ?thesis by (metis hd_in_set)
qed

lemma length_baseids: "length (baseids xs) \<le> 5"
proof -
  have "length (concat (map (\<lambda>b. case place_id b of None \<Rightarrow> []
                                 | Some p \<Rightarrow> if p \<noteq> 0 then [p] else []) ys)) \<le> length ys"
    for ys :: "search_result list"
    by (induction ys) (auto split: option.splits)
  from this [of "take 5 xs"] show ?thesis by (simp add: baseids_def)
qed

lemma set_baseids:
  "set (baseids xs) = {p. p \<noteq> 0 \<and> (\<exists>r \<in> set (take 5 xs). place_id r = Some p)}"
  by (auto simp: baseids_def split: option.splits if_splits)

lemma retained_filter:
  assumes "xs \<noteq> []"
  shows "retained xs =
    filter (\<lambda>r. source_table r = PLACEX \<and> accuracy r \<le> accuracy (hd xs) + 0.5
                    \<and> (\<exists>b. result_bbox r = Some b \<and> area b < 20)
                    \<and> fst (rank_window (hd xs)) \<le> rank_address r
                    \<and> rank_address r \<le> snd (rank_window (hd xs))) xs"
proof -
  have filt: "(case result_bbox r of None \<Rightarrow> False | Some b \<Rightarrow> area b < 20)
      = (\<exists>b. result_bbox r = Some b \<and> area b < 20)" for r :: search_result
    by (cases "result_bbox r") auto
  from assms obtain r0 rest where xs: "xs = r0 # rest" by (cases xs) auto
  show ?thesis
    unfolding retained_def xs
    by (simp add: filt Let_def case_prod_beta del: filter.simps)
qed

lemma near_anchors_cases:
  assumes "base \<noteq> []"
  shows "near_anchors base =
     (if retained (sort_base base) = [] then None
      else Some (baseids (retained (sort_base base))))"
  using assms by (simp add: near_anchors_def Let_def)

lemma sort_inner_results: "sort_base inner_results = [res_city, res_postcode, res_street]"
  by (simp add: inner_results_def sort_base_def res_street_def res_city_def res_postcode_def
      less_eq_prod_def)

lemma retained_inner_results: "retained [res_city, res_postcode, res_street] = [res_city]"
  by (simp add: retained_def res_street_def res_city_def res_postcode_def rank_window_def)

text \<open>
  C5. With the results of the inner search sorted by (accuracy, rank_search) and \<open>r0\<close>
  the best of them, the results kept are exactly the results from PLACEX whose accuracy
  is at most that of \<open>r0\<close> plus 0.5, whose bounding box has an area below 20 and whose
  address rank lies in the window of \<open>r0\<close>: [0, 0] for rank 0, [1, min(25, rank + 4)]
  for a rank below 26 and [26, 30] otherwise. The anchors are place ids of the first
  five results kept, so at most five.
\<close>

theorem near_search_anchors:
  assumes "base \<noteq> []"
  shows "let r0 = hd (sort_base base);
             window = (if rank_address r0 = 0 then (0, 0)
                       else if rank_address r0 < 26 then (1, min 25 (rank_address r0 + 4))
                       else (26, 30));
             kept = retained (sort_base base)
         in r0 \<in> set base
          \<and> (\<forall>r \<in> set base. (accuracy r0, rank_search r0) \<le> (accuracy r, rank_search r))
          \<and> set (sort_base base) = set base
          \<and> kept = filter (\<lambda>r. source_table r = PLACEX
                              \<and> accuracy r \<le> accuracy r0 + 0.5
                              \<and> (\<exists>b. result_bbox r = Some b \<and> area b < 20)
                              \<and> fst window \<le> rank_address r \<and> rank_address r \<le> snd window)
                          (sort_base base)
          \<and> (case near_anchors base of
                None \<Rightarrow> kept = []
              | Some ids \<Rightarrow> kept \<noteq> [] \<and> length ids \<le> 5
                  \<and> set ids = {p. p \<noteq> 0 \<and> (\<exists>r \<in> set (take 5 kept). place_id r = Some p)})"
proof -
  have st: "set (sort_base base) = set base"
    by (simp add: sort_base_def)
  have ne: "sort_base base \<noteq> []"
    using assms st by (metis set_empty)
  have anchors: "(case near_anchors base of
         None \<Rightarrow> retained (sort_base base) = []
       | Some ids \<Rightarrow> retained (sort_base base) \<noteq> [] \<and> length ids \<le> 5
           \<and> set ids = {p. p \<noteq> 0
                \<and> (\<exists>r \<in> set (take 5 (retained (sort_base base))). place_id r = Some p)})"
    by (simp add: near_anchors_cases [OF assms] length_baseids set_baseids)
  show ?thesis
    unfolding Let_def
    using sort_base_hd_in [OF assms] sort_base_hd_min [of _ base] st
      retained_filter [OF ne] anchors
    unfolding rank_window_def by blast
qed

theorem near_search_anchors_witness:
  "inner_results \<noteq> []
   \<and> hd (sort_base inner_results) = res_city
   \<and> retained (sort_base inner_results) = [res_city]
   \<and> near_anchors inner_results = Some [12]
   \<and> (accuracy res_city, rank_search res_city)
       \<le> (accuracy res_street, rank_search res_street)
   \<and> (accuracy res_city, rank_search res_city)
       \<le> (accuracy res_postcode, rank_search res_postcode)"
proof -
  have ne: "inner_results \<noteq> []"
    by (simp add: inner_results_def)
  have an: "near_anchors inner_results = Some [12]"
    by (simp add: near_anchors_cases [OF ne] sort_inner_results retained_inner_results
        baseids_def) (simp add: res_city_def)
  from near_search_anchors [OF ne] show ?thesis
    using ne an
    by (simp add: Let_def sort_inner_results retained_inner_results)
       (simp add: inner_results_def)
qed

subsection \<open>Sequences built by \<^verbatim>\<open>advance\<close>\<close>

lemma appendable_word: "appendable s TOKEN_WORD = None"
  by (simp add: appendable_def)

lemma appendable_twice:
  "seq s \<noteq> [] \<Longrightarrow> t \<noteq> TOKEN_PARTIAL \<Longrightarrow> has_types s [t] \<Longrightarrow> appendable s t = None"
  unfolding appendable_def by (simp only: if_True if_False refl if_cancel)

lemma has_types_single: "has_types s [t] \<longleftrightarrow> type_count t (seq s) \<noteq> 0"
  by (auto simp: has_types_def type_count_def list_ex_iff filter_empty_conv)

lemma type_count_append [simp]:
  "type_count t (xs @ ys) = type_count t xs + type_count t ys"
  by (simp add: type_count_def)

lemma type_count_Nil [simp]: "type_count t [] = 0"
  by (simp add: type_count_def)

lemma type_count_single [simp]:
  "type_count t [r] = (if ttype r = t then 1 else 0)"
  by (simp add: type_count_def)

lemma type_count_butlast_last:
  "rs \<noteq> [] \<Longrightarrow> type_count t rs = type_count t (butlast rs) + (if ttype (last rs) = t then 1 else 0)"
proof -
  assume "rs \<noteq> []"
  then have "rs = butlast rs @ [last rs]" by simp
  then have "type_count t rs = type_count t (butlast rs @ [last rs])" by simp
  then show ?thesis by (simp only: type_count_append type_count_single)
qed

lemma advance_seq:
  assumes "advance s t e fb bp = Some s'"
  shows "t \<noteq> TOKEN_WORD
    \<and> (seq s = [] \<longrightarrow> seq s' = [\<lparr>ttype = t, trange = TokenRange 0 e\<rparr>])
    \<and> (seq s \<noteq> [] \<longrightarrow>
         (t = TOKEN_PARTIAL \<and> ttype (last (seq s)) = TOKEN_PARTIAL \<and> \<not> fb
          \<and> seq s' = butlast (seq s) @ [\<lparr>ttype = t, trange = replace_end (trange (last (seq s))) e\<rparr>])
       \<or> ((t \<noteq> TOKEN_PARTIAL \<longrightarrow> type_count t (seq s) = 0)
          \<and> seq s' = seq s @ [\<lparr>ttype = t, trange = TokenRange (tr_end (trange (last (seq s)))) e\<rparr>]))"
proof -
  from assms obtain d where d: "appendable s t = Some d"
    by (cases "appendable s t") (simp_all add: advance_def)
  have w: "t \<noteq> TOKEN_WORD" using d appendable_word by auto
  have once: "seq s \<noteq> [] \<Longrightarrow> t \<noteq> TOKEN_PARTIAL \<Longrightarrow> type_count t (seq s) = 0"
    using d appendable_twice [of s t] has_types_single [of s t] by auto
  have ext: "t = TOKEN_PARTIAL" if ne: "seq s \<noteq> []" and l: "ttype (last (seq s)) = t"
  proof (rule ccontr)
    assume "t \<noteq> TOKEN_PARTIAL"
    then have "type_count t (seq s) = 0" using once ne by simp
    with type_count_butlast_last [OF ne, of t] l show False by simp
  qed
  have adv: "advance s t e fb bp =
        (if seq s = [] then
           Some \<lparr>seq = [\<lparr>ttype = t, trange = TokenRange 0 e\<rparr>],
                 direction = d, seq_penalty = seq_penalty s + 0\<rparr>
         else
           (if \<not> fb \<and> ttype (last (seq s)) = t then
                 Some \<lparr>seq = butlast (seq s)
                              @ [\<lparr>ttype = t, trange = replace_end (trange (last (seq s))) e\<rparr>],
                       direction = d, seq_penalty = seq_penalty s + 0\<rparr>
               else
                 Some \<lparr>seq = seq s
                              @ [\<lparr>ttype = t,
                                  trange = TokenRange (tr_end (trange (last (seq s)))) e\<rparr>],
                       direction = d,
                       seq_penalty = seq_penalty s + bp\<rparr>))"
    unfolding advance_def d by (simp add: Let_def)
  show ?thesis
  proof (cases "seq s = []")
    case True
    with assms adv w show ?thesis by auto
  next
    case False
    show ?thesis
    proof (cases "\<not> fb \<and> ttype (last (seq s)) = t")
      case True
      with False ext have "t = TOKEN_PARTIAL" by blast
      with assms adv w False True show ?thesis by auto
    next
      case nx: False
      with assms adv False have "seq s' = seq s @ [\<lparr>ttype = t, trange = TokenRange (tr_end (trange (last (seq s)))) e\<rparr>]"
        by auto
      with w once False show ?thesis by blast
    qed
  qed
qed

lemma contiguous_snoc:
  "contiguous a (rs @ [r]) \<longleftrightarrow>
     contiguous a rs
     \<and> tr_start (trange r) = (if rs = [] then a else tr_end (trange (last rs)))
     \<and> tr_start (trange r) < tr_end (trange r)"
  by (induction rs arbitrary: a) auto

lemma contiguous_end_ge:
  "contiguous a rs \<Longrightarrow> a \<le> (if rs = [] then a else tr_end (trange (last rs)))"
proof (induction rs arbitrary: a)
  case Nil
  show ?case by simp
next
  case (Cons r rs)
  from Cons.prems have c: "contiguous (tr_end (trange r)) rs" and lt: "a < tr_end (trange r)"
    by simp_all
  from Cons.IH [OF c] lt show ?case by (simp split: if_splits)
qed

lemma end_pos_ge: "contiguous 0 (seq s) \<Longrightarrow> 0 \<le> end_pos s"
  using contiguous_end_ge [of 0 "seq s"] by (simp add: end_pos_def split: if_splits)

lemma advance_contiguous:
  assumes c: "contiguous 0 (seq s)" and e: "end_pos s < e"
    and a: "advance s t e fb bp = Some s'"
  shows "contiguous 0 (seq s') \<and> end_pos s' = e"
proof (cases "seq s = []")
  case True
  with advance_seq [OF a] have "seq s' = [\<lparr>ttype = t, trange = TokenRange 0 e\<rparr>]" by simp
  with e True show ?thesis by (simp add: end_pos_def TokenRange_def)
next
  case False
  then have sp: "seq s = butlast (seq s) @ [last (seq s)]" by simp
  from c sp have cb: "contiguous 0 (butlast (seq s) @ [last (seq s)])" by simp
  note cs = cb [unfolded contiguous_snoc]
  from e False have le: "tr_end (trange (last (seq s))) < e" by (simp add: end_pos_def)
  from advance_seq [OF a] False
  consider (ext) "seq s' = butlast (seq s) @ [\<lparr>ttype = t, trange = replace_end (trange (last (seq s))) e\<rparr>]"
    | (new) "seq s' = seq s @ [\<lparr>ttype = t, trange = TokenRange (tr_end (trange (last (seq s)))) e\<rparr>]"
    by blast
  then show ?thesis
  proof cases
    case ext
    have "contiguous 0 (seq s')"
      unfolding ext contiguous_snoc using cs le by (simp add: replace_end_def TokenRange_def)
    moreover have "end_pos s' = e"
      unfolding end_pos_def ext by (simp add: replace_end_def TokenRange_def)
    ultimately show ?thesis by simp
  next
    case new
    have "contiguous 0 (seq s')"
      unfolding new contiguous_snoc using c le False by (simp add: TokenRange_def)
    moreover have "end_pos s' = e"
      unfolding end_pos_def new by (simp add: TokenRange_def)
    ultimately show ?thesis by simp
  qed
qed

lemma advance_counts:
  assumes a: "advance s t e fb bp = Some s'"
    and w: "type_count TOKEN_WORD (seq s) = 0"
    and o: "\<forall>u \<in> set single_types. type_count u (seq s) \<le> 1"
  shows "type_count TOKEN_WORD (seq s') = 0 \<and> (\<forall>u \<in> set single_types. type_count u (seq s') \<le> 1)"
proof (cases "seq s = []")
  case True
  with advance_seq [OF a] have "seq s' = [\<lparr>ttype = t, trange = TokenRange 0 e\<rparr>]" "t \<noteq> TOKEN_WORD" by simp_all
  then show ?thesis by simp
next
  case False
  from advance_seq [OF a] have tw: "t \<noteq> TOKEN_WORD" by simp
  from advance_seq [OF a] False
  consider (ext) "t = TOKEN_PARTIAL" "ttype (last (seq s)) = TOKEN_PARTIAL"
      "seq s' = butlast (seq s) @ [\<lparr>ttype = t, trange = replace_end (trange (last (seq s))) e\<rparr>]"
    | (new) "t \<noteq> TOKEN_PARTIAL \<longrightarrow> type_count t (seq s) = 0"
       "seq s' = seq s @ [\<lparr>ttype = t, trange = TokenRange (tr_end (trange (last (seq s)))) e\<rparr>]"
    by blast
  then show ?thesis
  proof cases
    case ext
    have "type_count u (seq s') = type_count u (seq s)" for u
      unfolding ext(3) using type_count_butlast_last [OF False, of u] ext(1,2) by simp
    with w o show ?thesis by simp
  next
    case new
    have cnt: "type_count u (seq s') = type_count u (seq s) + (if t = u then 1 else 0)" for u
      unfolding new(2) by simp
    have "type_count u (seq s') \<le> 1" if "u \<in> set single_types" for u
    proof (cases "t = u")
      case True
      with that have "t \<noteq> TOKEN_PARTIAL" by (auto simp: single_types_def)
      with new(1) True cnt [of u] show ?thesis by simp
    next
      case False
      with cnt [of u] o that show ?thesis by simp
    qed
    moreover have "type_count TOKEN_WORD (seq s') = 0" using cnt [of TOKEN_WORD] tw w by simp
    ultimately show ?thesis by blast
  qed
qed

lemma built_counts:
  "built s \<Longrightarrow> type_count TOKEN_WORD (seq s) = 0 \<and> (\<forall>u \<in> set single_types. type_count u (seq s) \<le> 1)"
proof (induction rule: built.induct)
  case (initial d p)
  show ?case by simp
next
  case (step s t e fb bp s')
  from step(3) have w: "type_count TOKEN_WORD (seq s) = 0"
    and o: "\<forall>u \<in> set single_types. type_count u (seq s) \<le> 1" by simp_all
  from advance_counts [OF step(2) w o] show ?case .
qed

subsection \<open>The assignment made from a sequence\<close>

lemma from_ranges_Nil: "from_ranges [] = empty_assignment"
  by (simp add: from_ranges_def)

lemma from_ranges_snoc: "from_ranges (rs @ [r]) = from_ranges_step (from_ranges rs) r"
  by (simp add: from_ranges_def)

lemma from_ranges_fields:
  "name (from_ranges rs) = None
   \<and> ta_penalty (from_ranges rs) = 0
   \<and> address (from_ranges rs) = map trange (filter (\<lambda>r. ttype r = TOKEN_PARTIAL) rs)
   \<and> (\<forall>t \<in> set single_types.
        role t (from_ranges rs)
          = (if type_count t rs = 0 then None
             else Some (trange (last (filter (\<lambda>r. ttype r = t) rs)))))"
proof (induction rs rule: rev_induct)
  case Nil
  show ?case
    by (simp add: from_ranges_Nil empty_assignment_def single_types_def)
next
  case (snoc r rs)
  show ?case
    unfolding from_ranges_snoc
    using snoc.IH
    by (cases "ttype r")
       (simp_all add: from_ranges_step_def single_types_def type_count_def)
qed

lemma from_ranges_name: "name (from_ranges rs) = None"
  using from_ranges_fields by blast

lemma from_ranges_address:
  "address (from_ranges rs) = map trange (filter (\<lambda>r. ttype r = TOKEN_PARTIAL) rs)"
  using from_ranges_fields by blast

lemma from_ranges_role:
  assumes "t \<in> set single_types" and "type_count t rs \<le> 1"
  shows "opt_list (role t (from_ranges rs)) = map trange (filter (\<lambda>r. ttype r = t) rs)"
proof -
  from from_ranges_fields assms(1)
  have r: "role t (from_ranges rs)
          = (if type_count t rs = 0 then None
             else Some (trange (last (filter (\<lambda>r. ttype r = t) rs))))" by blast
  show ?thesis
  proof (cases "type_count t rs = 0")
    case True
    then show ?thesis using r by (simp add: opt_list_def type_count_def)
  next
    case False
    then have "0 < length (filter (\<lambda>r. ttype r = t) rs)"
      by (simp add: type_count_def)
    with assms(2) have "length (filter (\<lambda>r. ttype r = t) rs) = 1"
      unfolding type_count_def by linarith
    then obtain x where x: "filter (\<lambda>r. ttype r = t) rs = [x]"
      by (cases "filter (\<lambda>r. ttype r = t) rs") auto
    with False r show ?thesis by (simp add: opt_list_def)
  qed
qed

lemma mset_by_type:
  assumes "type_count TOKEN_WORD rs = 0"
  shows "mset (filter (\<lambda>r. ttype r = TOKEN_PARTIAL) rs)
       + mset (filter (\<lambda>r. ttype r = TOKEN_HOUSENUMBER) rs)
       + mset (filter (\<lambda>r. ttype r = TOKEN_POSTCODE) rs)
       + mset (filter (\<lambda>r. ttype r = TOKEN_COUNTRY) rs)
       + mset (filter (\<lambda>r. ttype r = TOKEN_NEAR_ITEM) rs)
       + mset (filter (\<lambda>r. ttype r = TOKEN_QUALIFIER) rs) = mset rs"
  using assms
proof (induction rs)
  case Nil
  show ?case by simp
next
  case (Cons r rs)
  from Cons.prems have w: "ttype r \<noteq> TOKEN_WORD" and "type_count TOKEN_WORD rs = 0"
    by (simp_all add: type_count_def split: if_splits)
  with Cons.IH have ih: "mset (filter (\<lambda>r. ttype r = TOKEN_PARTIAL) rs)
       + mset (filter (\<lambda>r. ttype r = TOKEN_HOUSENUMBER) rs)
       + mset (filter (\<lambda>r. ttype r = TOKEN_POSTCODE) rs)
       + mset (filter (\<lambda>r. ttype r = TOKEN_COUNTRY) rs)
       + mset (filter (\<lambda>r. ttype r = TOKEN_NEAR_ITEM) rs)
       + mset (filter (\<lambda>r. ttype r = TOKEN_QUALIFIER) rs) = mset rs" by simp
  from w ih show ?case
    by (cases "ttype r") (simp_all add: union_assoc [symmetric])
qed

lemma from_ranges_mset:
  assumes w: "type_count TOKEN_WORD rs = 0"
    and o: "\<forall>u \<in> set single_types. type_count u rs \<le> 1"
  shows "mset (assignment_ranges (from_ranges rs)) = mset (map trange rs)"
proof -
  have hn: "opt_list (housenumber (from_ranges rs)) = map trange (filter (\<lambda>r. ttype r = TOKEN_HOUSENUMBER) rs)"
    using from_ranges_role [of TOKEN_HOUSENUMBER rs] o by (simp add: single_types_def)
  have pc: "opt_list (postcode (from_ranges rs)) = map trange (filter (\<lambda>r. ttype r = TOKEN_POSTCODE) rs)"
    using from_ranges_role [of TOKEN_POSTCODE rs] o by (simp add: single_types_def)
  have co: "opt_list (country (from_ranges rs)) = map trange (filter (\<lambda>r. ttype r = TOKEN_COUNTRY) rs)"
    using from_ranges_role [of TOKEN_COUNTRY rs] o by (simp add: single_types_def)
  have ni: "opt_list (near_item (from_ranges rs)) = map trange (filter (\<lambda>r. ttype r = TOKEN_NEAR_ITEM) rs)"
    using from_ranges_role [of TOKEN_NEAR_ITEM rs] o by (simp add: single_types_def)
  have qu: "opt_list (qualifier (from_ranges rs)) = map trange (filter (\<lambda>r. ttype r = TOKEN_QUALIFIER) rs)"
    using from_ranges_role [of TOKEN_QUALIFIER rs] o by (simp add: single_types_def)
  have "mset (assignment_ranges (from_ranges rs)) =
      image_mset trange (mset (filter (\<lambda>r. ttype r = TOKEN_PARTIAL) rs)
       + mset (filter (\<lambda>r. ttype r = TOKEN_HOUSENUMBER) rs)
       + mset (filter (\<lambda>r. ttype r = TOKEN_POSTCODE) rs)
       + mset (filter (\<lambda>r. ttype r = TOKEN_COUNTRY) rs)
       + mset (filter (\<lambda>r. ttype r = TOKEN_NEAR_ITEM) rs)
       + mset (filter (\<lambda>r. ttype r = TOKEN_QUALIFIER) rs))"
    unfolding assignment_ranges_def hn pc co ni qu from_ranges_address
    by (simp add: from_ranges_name opt_list_def)
  then show ?thesis
    unfolding mset_by_type [OF w] by simp
qed

subsection \<open>The assignments yielded for a sequence\<close>

lemma gen_then_items:
  "a \<in> set (fst (gen_then g h)) \<Longrightarrow> a \<in> set (fst g) \<or> a \<in> set (fst h)"
  by (auto simp: gen_then_def split: if_splits)

lemma gen_yield_items [simp]: "fst (gen_yield xs) = xs"
  by (simp add: gen_yield_def)

lemma gen_raise_items [simp]: "fst (gen_raise e) = []"
  by (simp add: gen_raise_def)

lemma forward_splits_items:
  assumes "a \<in> set (fst (forward_splits q base first pen js))"
  shows "\<exists>i \<in> set js. \<exists>p. a = base\<lparr>ta_penalty := p, name := Some (replace_end first i),
                    address := replace_start first i # tl (address base)\<rparr>"
  using assms
proof (induction js)
  case Nil
  then show ?case by simp
next
  case (Cons j js)
  show ?case
  proof (cases "py_index (nodes q) j")
    case (Inl e)
    with Cons.prems show ?thesis by (simp add: split_range_def)
  next
    case (Inr nd)
    with Cons.prems have "a \<in> set (fst (gen_then
              (gen_yield [base\<lparr>name := Some (replace_end first j), address := replace_start first j # tl (address base),
                               ta_penalty := pen + word_break_penalty nd\<rparr>])
              (forward_splits q base first pen js)))"
      by (simp add: split_range_def)
    from gen_then_items [OF this]
    consider (hd) "a = base\<lparr>name := Some (replace_end first j),
                       address := replace_start first j # tl (address base),
                       ta_penalty := pen + word_break_penalty nd\<rparr>"
      | (tl) "a \<in> set (fst (forward_splits q base first pen js))"
      by auto
    then show ?thesis
    proof cases
      case hd
      show ?thesis
        by (rule bexI [of _ j], rule exI [of _ "pen + word_break_penalty nd"])
           (simp_all add: hd)
    next
      case tl
      from Cons.IH [OF tl] show ?thesis by auto
    qed
  qed
qed

lemma backward_splits_items:
  assumes "a \<in> set (fst (backward_splits q base lst pen js))"
  shows "\<exists>i \<in> set js. \<exists>p. a = base\<lparr>ta_penalty := p, name := Some (replace_start lst i),
                    address := butlast (address base) @ [replace_end lst i]\<rparr>"
  using assms
proof (induction js)
  case Nil
  then show ?case by simp
next
  case (Cons j js)
  show ?case
  proof (cases "py_index (nodes q) j")
    case (Inl e)
    with Cons.prems show ?thesis by (simp add: split_range_def)
  next
    case (Inr nd)
    with Cons.prems have "a \<in> set (fst (gen_then
              (gen_yield [base\<lparr>name := Some (replace_start lst j), address := butlast (address base) @ [replace_end lst j],
                               ta_penalty := pen + word_break_penalty nd\<rparr>])
              (backward_splits q base lst pen js)))"
      by (simp add: split_range_def)
    from gen_then_items [OF this]
    consider (hd) "a = base\<lparr>name := Some (replace_start lst j),
                       address := butlast (address base) @ [replace_end lst j],
                       ta_penalty := pen + word_break_penalty nd\<rparr>"
      | (tl) "a \<in> set (fst (backward_splits q base lst pen js))"
      by auto
    then show ?thesis
    proof cases
      case hd
      show ?thesis
        by (rule bexI [of _ j], rule exI [of _ "pen + word_break_penalty nd"])
           (simp_all add: hd)
    next
      case tl
      from Cons.IH [OF tl] show ?thesis by auto
    qed
  qed
qed

lemma forward_split_part_items:
  assumes "a \<in> set (fst (forward_split_part s base q first pen))"
  shows "\<exists>i p. tr_start first < i \<and> i < tr_end first
        \<and> a = base\<lparr>ta_penalty := p, name := Some (replace_end first i),
                    address := replace_start first i # tl (address base)\<rparr>"
proof -
  from assms obtain pen2 where
    "a \<in> set (fst (forward_splits q base first pen2 [tr_start first + 1 .. tr_end first - 1]))"
    unfolding forward_split_part_def Let_def
    by (auto split: if_splits sum.splits)
  from forward_splits_items [OF this] obtain i p
    where i: "i \<in> set [tr_start first + 1 .. tr_end first - 1]"
      and a: "a = base\<lparr>ta_penalty := p, name := Some (replace_end first i),
                    address := replace_start first i # tl (address base)\<rparr>"
    by blast
  from i have "tr_start first < i \<and> i < tr_end first" by simp
  with a show ?thesis by blast
qed

lemma backward_split_part_items:
  assumes "a \<in> set (fst (backward_split_part s base q lst pen))"
  shows "\<exists>i p. tr_start lst < i \<and> i < tr_end lst
        \<and> a = base\<lparr>ta_penalty := p, name := Some (replace_start lst i),
                    address := butlast (address base) @ [replace_end lst i]\<rparr>"
proof -
  from assms obtain pen2 where
    "a \<in> set (fst (backward_splits q base lst pen2 [tr_start lst + 1 .. tr_end lst - 1]))"
    unfolding backward_split_part_def Let_def
    by (auto split: if_splits sum.splits)
  from backward_splits_items [OF this] obtain i p
    where i: "i \<in> set [tr_start lst + 1 .. tr_end lst - 1]"
      and a: "a = base\<lparr>ta_penalty := p, name := Some (replace_start lst i),
                    address := butlast (address base) @ [replace_end lst i]\<rparr>"
    by blast
  from i have "tr_start lst < i \<and> i < tr_end lst" by simp
  with a show ?thesis by blast
qed

lemma forward_variant:
  assumes "a \<in> set (fst (get_assignments_address_forward s base q))"
  shows "variant_of base a"
proof (cases "address base")
  case Nil
  with assms show ?thesis by (simp add: get_assignments_address_forward_def)
next
  case (Cons first rest)
  with assms obtain pen where
    "a \<in> set (fst (gen_then
                 (gen_yield [base\<lparr>ta_penalty := pen, name := Some first, address := rest\<rparr>])
                 (forward_split_part s base q first pen)))"
    unfolding get_assignments_address_forward_def Let_def
    by (auto split: if_splits)
  from gen_then_items [OF this]
  consider (whole) "a = base\<lparr>ta_penalty := pen, name := Some first, address := rest\<rparr>"
    | (split) "a \<in> set (fst (forward_split_part s base q first pen))"
    by auto
  then show ?thesis
  proof cases
    case whole
    with Cons show ?thesis unfolding variant_of_def by blast
  next
    case split
    from forward_split_part_items [OF split] Cons
    show ?thesis unfolding variant_of_def by (simp only: list.sel) blast
  qed
qed

lemma backward_variant:
  assumes "a \<in> set (fst (get_assignments_address_backward s base q))"
  shows "variant_of base a"
proof (cases "address base = []")
  case True
  with assms show ?thesis by (simp add: get_assignments_address_backward_def)
next
  case False
  with assms obtain pen where
    "a \<in> set (fst (gen_then
                   (if direction s = - 1 \<or> length (address base) > 1 \<or> postcode base \<noteq> None
                    then gen_yield [base\<lparr>ta_penalty := pen, name := Some (last (address base)),
                                         address := butlast (address base)\<rparr>]
                    else gen_yield [])
                   (backward_split_part s base q (last (address base)) pen)))"
    unfolding get_assignments_address_backward_def Let_def
    by (auto split: if_splits)
  from gen_then_items [OF this]
  consider (whole) "a = base\<lparr>ta_penalty := pen, name := Some (last (address base)),
                                         address := butlast (address base)\<rparr>"
    | (split) "a \<in> set (fst (backward_split_part s base q (last (address base)) pen))"
    by (auto split: if_splits)
  then show ?thesis
  proof cases
    case whole
    with False show ?thesis unfolding variant_of_def by blast
  next
    case split
    from backward_split_part_items [OF split] False
    show ?thesis unfolding variant_of_def by blast
  qed
qed

lemma postcode_variant:
  assumes "a \<in> set (fst (get_assignments_postcode s base n))"
  shows "variant_of base a"
  using assms unfolding get_assignments_postcode_def Let_def variant_of_def
  by (auto split: option.splits if_splits)

lemma address_variant:
  assumes "a \<in> set (fst (get_assignments_address s base q))"
  shows "variant_of base a"
proof -
  define s' where "s' = (if (case postcode base of None \<Rightarrow> False | Some pc \<Rightarrow> tr_start pc = 0)
               then s\<lparr>seq_penalty := seq_penalty s + 0.1\<rparr> else s)"
  from assms have "a \<in> set (fst (gen_then
          (if direction s' \<noteq> - 1
           then get_assignments_address_forward s' base q else gen_yield [])
          (gen_then
             (if direction s' \<noteq> 1
              then get_assignments_address_backward s' base q else gen_yield [])
             (if housenumber base \<noteq> None \<and> qualifier base = None
              then gen_yield [base\<lparr>ta_penalty := seq_penalty s'\<rparr>]
              else gen_yield []))))"
    unfolding get_assignments_address_def Let_def s'_def .
  then consider "a \<in> set (fst (get_assignments_address_forward s' base q))"
    | "a \<in> set (fst (get_assignments_address_backward s' base q))"
    | "a = base\<lparr>ta_penalty := seq_penalty s'\<rparr>"
    by (auto dest!: gen_then_items split: if_splits)
  then show ?thesis
  proof cases
    case 1 then show ?thesis by (rule forward_variant)
  next
    case 2 then show ?thesis by (rule backward_variant)
  next
    case 3 then show ?thesis unfolding variant_of_def by blast
  qed
qed

lemma get_assignments_variant:
  assumes "a \<in> set (fst (get_assignments s q))"
  shows "variant_of (from_ranges (seq s)) a \<and> num_addr_tokens (from_ranges (seq s)) \<le> 50"
proof -
  let ?base = "from_ranges (seq s)"
  have le: "num_addr_tokens ?base \<le> 50"
    using assms unfolding get_assignments_def Let_def by (auto split: if_splits)
  with assms have "a \<in> set (fst (gen_then
            (if postcode ?base \<noteq> None \<and> address ?base \<noteq> []
             then get_assignments_postcode s ?base (num_token_slots q)
             else gen_yield [])
            (if address ?base = [] then
               (if housenumber ?base = None
                   \<and> (postcode ?base \<noteq> None \<or> country ?base \<noteq> None \<or> near_item ?base \<noteq> None)
                then gen_yield [?base\<lparr>ta_penalty := seq_penalty s\<rparr>]
                else gen_yield [])
             else get_assignments_address s ?base q)))"
    unfolding get_assignments_def Let_def by simp
  then consider "a \<in> set (fst (get_assignments_postcode s ?base (num_token_slots q)))"
    | "a = ?base\<lparr>ta_penalty := seq_penalty s\<rparr>"
    | "a \<in> set (fst (get_assignments_address s ?base q))"
    by (auto dest!: gen_then_items split: if_splits)
  then have "variant_of ?base a"
  proof cases
    case 1 then show ?thesis by (rule postcode_variant)
  next
    case 2 then show ?thesis unfolding variant_of_def by blast
  next
    case 3 then show ?thesis by (rule address_variant)
  qed
  with le show ?thesis by simp
qed

lemma variant_role:
  assumes "variant_of base a"
  shows "role t a = role t base"
  using assms unfolding variant_of_def by (cases t) auto

lemma covered_Nil [simp]: "covered [] = []"
  by (simp add: covered_def)

lemma covered_Cons [simp]: "covered (r # rs) = range_list r @ covered rs"
  by (simp add: covered_def)

lemma covered_append [simp]: "covered (xs @ ys) = covered xs @ covered ys"
  by (simp add: covered_def)

lemma covered_opt_list: "covered (opt_list (Some r)) = range_list r" "covered (opt_list None) = []"
  by (simp_all add: opt_list_def)

lemma range_list_split:
  assumes "tr_start r < i" and "i < tr_end r"
  shows "range_list (replace_end r i) @ range_list (replace_start r i) = range_list r"
proof -
  have "[tr_start r .. tr_end r - 1] = [tr_start r .. i - 1] @ [i .. tr_end r - 1]"
    using assms by (intro upto_split1) simp_all
  then show ?thesis
    by (simp add: range_list_def replace_end_def replace_start_def TokenRange_def)
qed

lemma mset_covered_cong:
  assumes "mset xs = mset ys"
  shows "mset (covered xs) = mset (covered ys)"
proof -
  have "mset (covered zs) = sum_mset (image_mset (\<lambda>r. mset (range_list r)) (mset zs))" for zs
    by (induction zs) simp_all
  with assms show ?thesis by simp
qed

lemma variant_covered:
  assumes v: "variant_of base a" and n: "name base = None"
  shows "mset (covered (assignment_ranges a)) = mset (covered (assignment_ranges base))"
proof -
  let ?rest = "opt_list (housenumber base) @ opt_list (postcode base)
    @ opt_list (country base) @ opt_list (near_item base) @ opt_list (qualifier base)"
  have base: "assignment_ranges base = address base @ ?rest"
    by (simp add: assignment_ranges_def n opt_list_def)
  from v consider
      (pen) p where "a = base\<lparr>ta_penalty := p\<rparr>"
    | (fwd) p first rest where "address base = first # rest"
         "a = base\<lparr>ta_penalty := p, name := Some first, address := rest\<rparr>"
    | (fsplit) p first rest i where "address base = first # rest"
         "tr_start first < i" "i < tr_end first"
         "a = base\<lparr>ta_penalty := p, name := Some (replace_end first i),
                    address := replace_start first i # rest\<rparr>"
    | (bwd) p where "address base \<noteq> []"
         "a = base\<lparr>ta_penalty := p, name := Some (last (address base)),
                    address := butlast (address base)\<rparr>"
    | (bsplit) p i where "address base \<noteq> []"
         "tr_start (last (address base)) < i" "i < tr_end (last (address base))"
         "a = base\<lparr>ta_penalty := p, name := Some (replace_start (last (address base)) i),
                    address := butlast (address base)
                               @ [replace_end (last (address base)) i]\<rparr>"
    unfolding variant_of_def by blast
  then show ?thesis
  proof cases
    case pen
    then show ?thesis by (simp add: assignment_ranges_def)
  next
    case fwd
    then have "assignment_ranges a = assignment_ranges base"
      by (simp add: assignment_ranges_def n opt_list_def)
    then show ?thesis by simp
  next
    case fsplit
    have "covered (assignment_ranges a)
        = (range_list (replace_end first i) @ range_list (replace_start first i))
          @ covered rest @ covered ?rest"
      unfolding fsplit(4) by (simp add: assignment_ranges_def opt_list_def)
    also have "\<dots> = covered (assignment_ranges base)"
      unfolding range_list_split [OF fsplit(2,3)] base fsplit(1) by simp
    finally show ?thesis by simp
  next
    case bwd
    have sp: "address base = butlast (address base) @ [last (address base)]"
      using bwd(1) by simp
    have "mset (assignment_ranges a) = mset (butlast (address base) @ [last (address base)] @ ?rest)"
      unfolding bwd(2) by (simp add: assignment_ranges_def opt_list_def)
    also have "\<dots> = mset (assignment_ranges base)"
      unfolding base using sp by (metis append.assoc)
    finally show ?thesis by (rule mset_covered_cong)
  next
    case bsplit
    let ?l = "last (address base)"
    have sp: "address base = butlast (address base) @ [?l]"
      using bsplit(1) by simp
    have "mset (covered (assignment_ranges a))
        = mset (covered (butlast (address base)))
          + mset (range_list (replace_end ?l i) @ range_list (replace_start ?l i))
          + mset (covered ?rest)"
      unfolding bsplit(4) by (simp add: assignment_ranges_def opt_list_def)
    also have "\<dots> = mset (covered (butlast (address base) @ [?l] @ ?rest))"
      unfolding range_list_split [OF bsplit(2,3)] by simp
    also have "\<dots> = mset (covered (assignment_ranges base))"
      unfolding base using sp by (metis append.assoc)
    finally show ?thesis .
  qed
qed

lemma contiguous_covered:
  assumes "contiguous a rs"
  shows "covered (map trange rs) = [a .. (if rs = [] then a else tr_end (trange (last rs))) - 1]"
  using assms
proof (induction rs arbitrary: a)
  case Nil
  show ?case by simp
next
  case (Cons r rs)
  let ?e = "tr_end (trange r)"
  from Cons.prems have st: "tr_start (trange r) = a" and lt: "a < ?e" and c: "contiguous ?e rs"
    by simp_all
  let ?end = "if rs = [] then ?e else tr_end (trange (last rs))"
  from contiguous_end_ge [OF c] have ge: "?e \<le> ?end" .
  have "covered (map trange (r # rs)) = [a .. ?e - 1] @ [?e .. ?end - 1]"
    using Cons.IH [OF c] st by (simp add: range_list_def)
  also have "\<dots> = [a .. ?end - 1]"
  proof (cases "?e = ?end")
    case True
    then show ?thesis by simp
  next
    case False
    with ge have "?e \<le> ?end - 1" by linarith
    with lt show ?thesis by (intro upto_split1 [symmetric]) simp_all
  qed
  finally show ?case by simp
qed

subsection \<open>The enumeration of the sequences\<close>

lemma adapt_seq: "adapt_penalty_from_priors s n d = (ok, s') \<Longrightarrow> seq s' = seq s"
  by (auto simp: adapt_penalty_from_priors_def split: if_splits)

lemma recheck_seq:
  assumes "recheck_sequence s = (ok, s')"
  shows "seq s' = seq s"
proof (cases "first_index TOKEN_HOUSENUMBER (seq s)")
  case None
  with assms show ?thesis by (simp add: recheck_sequence_def)
next
  case (Some h)
  obtain ok1 s1 where r1: "(if direction s \<noteq> - 1
                then adapt_penalty_from_priors s (count_partials (take h (seq s))) (- 1)
                else (True, s)) = (ok1, s1)" by (metis surj_pair)
  then have s1: "seq s1 = seq s" by (auto split: if_splits dest: adapt_seq)
  obtain ok2 s2 where r2: "(if direction s1 \<noteq> 1
                      then adapt_penalty_from_priors s1
                             (count_partials (drop (h + 1) (seq s1))) 1
                      else (True, s1)) = (ok2, s2)" by (metis surj_pair)
  then have s2: "seq s2 = seq s1" by (auto split: if_splits dest: adapt_seq)
  from assms have "s' = s1 \<or> s' = s2 \<or> s' = s2\<lparr>seq_penalty := seq_penalty s2 + 1.0\<rparr>"
    unfolding recheck_sequence_def Some option.case Let_def r1 r2 prod.case
    by (auto split: if_splits)
  with s1 s2 show ?thesis by auto
qed

lemma end_pos_cong: "seq s = seq s' \<Longrightarrow> end_pos s = end_pos s'"
  by (simp add: end_pos_def)

lemma append_state_inv:
  assumes ns: "\<And>s. newstate = Some s \<Longrightarrow> reached s"
    and todo: "\<forall>t \<in> set todo. reached t"
    and r: "append_state_to_todo q todo newstate = (g, todo')"
  shows "(\<forall>a \<in> set (fst g). emitted q a) \<and> (\<forall>t \<in> set todo'. reached t)"
proof (cases newstate)
  case None
  with r have "g = gen_yield []" and "todo' = todo"
    by (auto simp: append_state_to_todo_def)
  with todo show ?thesis by simp
next
  case (Some s)
  with ns have rs: "reached s" by simp
  show ?thesis
  proof (cases "end_pos s = num_token_slots q")
    case True
    obtain ok s' where rc: "recheck_sequence s = (ok, s')" by (metis surj_pair)
    from recheck_seq [OF rc] have sq: "seq s' = seq s" .
    from r Some True rc have t': "todo' = todo" and g: "g = (if ok then get_assignments s' q else gen_yield [])"
      by (auto simp: append_state_to_todo_def gen_yield_def split: if_splits bool.splits)
    have "emitted q a" if "a \<in> set (fst g)" for a
    proof -
      from that g have "a \<in> set (fst (get_assignments s' q))" by (auto split: if_splits)
      moreover have "end_pos s' = num_token_slots q" using True end_pos_cong [OF sq] by simp
      ultimately show ?thesis unfolding emitted_def using rs sq by blast
    qed
    with t' todo show ?thesis by blast
  next
    case False
    with r Some have "fst g = []" and "set todo' \<subseteq> insert s (set todo)"
      by (auto simp: append_state_to_todo_def gen_yield_def split: if_splits)
    with todo rs show ?thesis by auto
  qed
qed

lemma advance_reached:
  assumes "reached s" and "end_pos s < e" and "advance s t e fb bp = Some s'"
  shows "reached s'"
  using assms advance_contiguous [of s e t fb bp s'] built.step [of s t e fb bp s']
  unfolding reached_def by blast

lemma starting_loop_inv:
  assumes st: "reached state"
    and ends: "\<forall>l \<in> set tls. end_pos state < tl_end l"
    and todo: "\<forall>t \<in> set todo. reached t"
    and r: "starting_loop q state node tls todo = (g, todo')"
  shows "(\<forall>a \<in> set (fst g). emitted q a) \<and> (\<forall>t \<in> set todo'. reached t)"
  using ends todo r
proof (induction tls arbitrary: todo g todo')
  case Nil
  then show ?case by auto
next
  case (Cons l tls)
  let ?ns = "advance state (tl_ttype l) (tl_end l) True (word_break_penalty node)"
  obtain g1 todo1 where a1: "append_state_to_todo q todo ?ns = (g1, todo1)" by (metis surj_pair)
  from Cons.prems(1) have lt: "end_pos state < tl_end l" by simp
  have "\<And>s. ?ns = Some s \<Longrightarrow> reached s"
    by (rule advance_reached [OF st lt])
  from append_state_inv [OF this Cons.prems(2) a1]
  have e1: "\<forall>a \<in> set (fst g1). emitted q a" and t1: "\<forall>t \<in> set todo1. reached t" by simp_all
  show ?case
  proof (cases "snd g1 = Finished")
    case False
    with Cons.prems(3) a1 have "g = g1" "todo' = todo1" by simp_all
    with e1 t1 show ?thesis by simp
  next
    case True
    obtain g2 todo2 where a2: "starting_loop q state node tls todo1 = (g2, todo2)" by (metis surj_pair)
    from Cons.prems(1) have "\<forall>l \<in> set tls. end_pos state < tl_end l" by simp
    from Cons.IH [OF this t1 a2]
    have e2: "\<forall>a \<in> set (fst g2). emitted q a" and t2: "\<forall>t \<in> set todo2. reached t" by simp_all
    from Cons.prems(3) a1 a2 True have "g = gen_then g1 g2" "todo' = todo2" by simp_all
    with e1 e2 t2 show ?thesis by (auto dest: gen_then_items)
  qed
qed

lemma lists_end_laterD:
  assumes "lists_end_later q" and "i < length (nodes q)" and "l \<in> set (starting (nodes q ! i))"
  shows "int i < tl_end l"
proof -
  have "(i, nodes q ! i) \<in> set (enumerate 0 (nodes q))"
    using assms(2) by (simp add: in_set_enumerate_eq)
  with assms(1) have "list_all (\<lambda>l. int i < tl_end l) (starting (nodes q ! i))"
    unfolding lists_end_later_def list_all_iff by fastforce
  with assms(3) show ?thesis by (simp add: list_all_iff)
qed

lemma py_index_nonneg:
  assumes "py_index xs i = Inr x" and "0 \<le> i"
  shows "nat i < length xs \<and> x = xs ! nat i"
  using assms
  by (auto simp: py_index_def norm_index_def split: option.splits if_splits)

lemma loop_body_inv:
  assumes wf: "lists_end_later q"
    and st: "reached state"
    and todo: "\<forall>t \<in> set todo. reached t"
    and r: "loop_body q state todo = (g, todo')"
  shows "(\<forall>a \<in> set (fst g). emitted q a) \<and> (\<forall>t \<in> set todo'. reached t)"
proof (cases "py_index (nodes q) (end_pos state)")
  case (Inl e)
  with r have "g = gen_raise e" "todo' = todo" by (auto simp: loop_body_def)
  with todo show ?thesis by simp
next
  case (Inr node)
  from st have "0 \<le> end_pos state" unfolding reached_def by (simp add: end_pos_ge)
  from py_index_nonneg [OF Inr this]
  have i: "nat (end_pos state) < length (nodes q)" and nd: "node = nodes q ! nat (end_pos state)"
    by simp_all
  have ends: "\<forall>l \<in> set (starting node). end_pos state < tl_end l"
    using lists_end_laterD [OF wf i] nd \<open>0 \<le> end_pos state\<close> by auto
  obtain g1 todo1 where s1: "starting_loop q state node (starting node) todo = (g1, todo1)"
    by (metis surj_pair)
  from starting_loop_inv [OF st ends todo s1]
  have e1: "\<forall>a \<in> set (fst g1). emitted q a" and t1: "\<forall>t \<in> set todo1. reached t" by simp_all
  let ?ns = "advance state TOKEN_PARTIAL (end_pos state + 1)
                           (btype node = BREAK_PHRASE) (word_break_penalty node)"
  obtain g2 todo2 where a2: "append_state_to_todo q todo1 ?ns = (g2, todo2)" by (metis surj_pair)
  have "\<And>s. ?ns = Some s \<Longrightarrow> reached s"
    by (rule advance_reached [OF st]) simp_all
  from append_state_inv [OF this t1 a2]
  have e2: "\<forall>a \<in> set (fst g2). emitted q a" and t2: "\<forall>t \<in> set todo2. reached t" by simp_all
  from r Inr s1 a2 have "(g = g1 \<and> todo' = todo1) \<or> (g = gen_then g1 g2 \<and> todo' = todo2)"
    by (auto simp: loop_body_def split: if_splits)
  with e1 t1 e2 t2 show ?thesis by (auto dest: gen_then_items)
qed

lemma todo_loop_inv:
  assumes wf: "lists_end_later q"
    and todo: "\<forall>t \<in> set todo. reached t"
    and a: "a \<in> set (fst (todo_loop q fuel todo))"
  shows "emitted q a"
  using todo a
proof (induction fuel arbitrary: todo)
  case 0
  then show ?case by (cases todo) simp_all
next
  case (Suc fuel)
  show ?case
  proof (cases todo)
    case Nil
    with Suc.prems show ?thesis by simp
  next
    case (Cons t ts)
    let ?state = "last (t # ts)" and ?rest = "butlast (t # ts)"
    obtain g todo' where b: "loop_body q ?state ?rest = (g, todo')" by (metis surj_pair)
    have "reached ?state" using Suc.prems(1) Cons by (metis last_in_set list.distinct(1))
    moreover have "\<forall>x \<in> set ?rest. reached x"
      using Suc.prems(1) Cons by (metis in_set_butlastD)
    ultimately have inv: "(\<forall>a \<in> set (fst g). emitted q a) \<and> (\<forall>t \<in> set todo'. reached t)"
      using loop_body_inv [OF wf _ _ b] by blast
    from Suc.prems(2) Cons b have "a \<in> set (fst (gen_then g (todo_loop q fuel todo')))"
      by simp
    from gen_then_items [OF this] inv Suc.IH [of todo'] show ?thesis by blast
  qed
qed

lemma yield_emitted:
  assumes wf: "lists_end_later q"
    and a: "a \<in> set (fst (yield_token_assignments q fuel))"
  shows "emitted q a"
proof (cases "source q")
  case Nil
  with a show ?thesis by (simp add: yield_token_assignments_def)
next
  case (Cons p ps)
  let ?init = "\<lparr>seq = [], direction = (if ph_ptype p = PHRASE_ANY then 0 else 1), seq_penalty = 0\<rparr>"
  have "reached ?init" unfolding reached_def by (simp add: built.initial)
  then have "\<forall>t \<in> set [?init]. reached t" by simp
  moreover from a Cons have "a \<in> set (fst (todo_loop q fuel [?init]))"
    by (simp add: yield_token_assignments_def)
  ultimately show ?thesis by (rule todo_loop_inv [OF wf])
qed

subsection \<open>The assignments of the enumerator\<close>

lemma distinct_concat_disjoint:
  assumes "distinct (concat xss)" and "i < j" and "j < length xss"
  shows "set (xss ! i) \<inter> set (xss ! j) = {}"
  using assms
proof (induction xss arbitrary: i j)
  case Nil
  then show ?case by simp
next
  case (Cons xs xss)
  from Cons.prems(2) obtain j' where j: "j = Suc j'" by (cases j) auto
  show ?case
  proof (cases i)
    case 0
    from Cons.prems(3) j have "xss ! j' \<in> set xss" by simp
    with Cons.prems(1) 0 j show ?thesis by auto
  next
    case (Suc i')
    with Cons.prems j have "distinct (concat xss)" "i' < j'" "j' < length xss" by simp_all
    from Cons.IH [OF this] Suc j show ?thesis by simp
  qed
qed

lemma range_slots_list: "range_slots r = set (range_list r)"
  by (auto simp: range_slots_def range_list_def)

lemma emitted_covered:
  assumes "emitted q a"
  shows "mset (covered (assignment_ranges a)) = mset [0 .. num_token_slots q - 1]"
proof -
  from assms obtain s st where st: "reached st" and sq: "seq s = seq st"
    and e: "end_pos s = num_token_slots q" and a: "a \<in> set (fst (get_assignments s q))"
    unfolding emitted_def by blast
  let ?base = "from_ranges (seq s)"
  from get_assignments_variant [OF a] have v: "variant_of ?base a" by simp
  from st have b: "built st" and c: "contiguous 0 (seq s)" unfolding reached_def sq by simp_all
  from built_counts [OF b] have w: "type_count TOKEN_WORD (seq s) = 0"
    and o: "\<forall>u \<in> set single_types. type_count u (seq s) \<le> 1" unfolding sq by simp_all
  have "mset (covered (assignment_ranges a)) = mset (covered (assignment_ranges ?base))"
    by (rule variant_covered [OF v from_ranges_name])
  also have "\<dots> = mset (covered (map trange (seq s)))"
    by (rule mset_covered_cong [OF from_ranges_mset [OF w o]])
  also have "covered (map trange (seq s)) = [0 .. end_pos s - 1]"
    unfolding contiguous_covered [OF c] end_pos_def by simp
  finally show ?thesis unfolding e .
qed

text \<open>
  C1. Every assignment that the enumerator yields for a query with \<open>n\<close> token slots,
  whose token lists end after the node at which they start, has pairwise
  non-overlapping ranges (name, address entries, housenumber, postcode, country,
  near_item, qualifier) whose union is the interval \<open>[0, n)\<close>.
\<close>

theorem assignment_covers_query:
  assumes "lists_end_later q" and "a \<in> set (fst (yield_token_assignments q fuel))"
  shows "(\<forall>i j. i < j \<and> j < length (assignment_ranges a)
            \<longrightarrow> range_slots (assignment_ranges a ! i) \<inter> range_slots (assignment_ranges a ! j) = {})
       \<and> (\<Union>r \<in> set (assignment_ranges a). range_slots r) = {0 ..< num_token_slots q}"
proof -
  let ?rs = "assignment_ranges a"
  from yield_emitted [OF assms] have m: "mset (covered ?rs) = mset [0 .. num_token_slots q - 1]"
    by (rule emitted_covered)
  have "distinct (covered ?rs)"
    using mset_eq_imp_distinct_iff [OF m] by simp
  then have d: "distinct (concat (map range_list ?rs))" by (simp add: covered_def)
  have disj: "range_slots (?rs ! i) \<inter> range_slots (?rs ! j) = {}"
    if "i < j" "j < length ?rs" for i j
    using distinct_concat_disjoint [OF d, of i j] that by (simp add: range_slots_list)
  have "set (covered ?rs) = set [0 .. num_token_slots q - 1]"
    by (rule mset_eq_setD [OF m])
  then have "(\<Union>r \<in> set ?rs. range_slots r) = {0 ..< num_token_slots q}"
    by (auto simp: covered_def range_slots_list)
  with disj show ?thesis by blast
qed

lemma main_postcode_query_wf: "lists_end_later main_postcode_query"
  by (simp add: lists_end_later_def main_postcode_query_def)

lemma postcode_search_yielded:
  "postcode_search \<in> set (fst (yield_token_assignments main_postcode_query 2))"
  by code_simp

lemma postcode_search_ranges:
  "assignment_ranges postcode_search = [TokenRange 0 1, TokenRange 1 2]"
  by (simp add: postcode_search_def address_postcode_base_def assignment_ranges_def opt_list_def)

theorem assignment_covers_query_witness:
  "lists_end_later main_postcode_query
   \<and> postcode_search \<in> set (fst (yield_token_assignments main_postcode_query 2))
   \<and> assignment_ranges postcode_search = [TokenRange 0 1, TokenRange 1 2]
   \<and> range_slots (TokenRange 0 1) \<inter> range_slots (TokenRange 1 2) = {}
   \<and> range_slots (TokenRange 0 1) \<union> range_slots (TokenRange 1 2)
       = {0 ..< num_token_slots main_postcode_query}"
proof -
  note c = assignment_covers_query [OF main_postcode_query_wf postcode_search_yielded]
  from c have "\<forall>i j. i < j \<and> j < length (assignment_ranges postcode_search)
            \<longrightarrow> range_slots (assignment_ranges postcode_search ! i)
                \<inter> range_slots (assignment_ranges postcode_search ! j) = {}" by (rule conjunct1)
  then have "(0::nat) < 1 \<and> 1 < length (assignment_ranges postcode_search)
            \<longrightarrow> range_slots (assignment_ranges postcode_search ! 0)
                \<inter> range_slots (assignment_ranges postcode_search ! 1) = {}" by blast
  then have "range_slots (TokenRange 0 1) \<inter> range_slots (TokenRange 1 2) = {}"
    by (simp add: postcode_search_ranges)
  moreover from c have "(\<Union>r \<in> set (assignment_ranges postcode_search). range_slots r)
      = {0 ..< num_token_slots main_postcode_query}" by simp
  ultimately show ?thesis
    using main_postcode_query_wf postcode_search_yielded
    by (simp add: postcode_search_ranges)
qed

lemma emitted_roles:
  assumes "emitted q a" and t: "t \<in> set single_types"
  shows "\<exists>st. built st \<and> type_count t (seq st) \<le> 1
      \<and> opt_list (role t a) = map trange (filter (\<lambda>r. ttype r = t) (seq st))"
proof -
  from assms obtain s st where st: "reached st" and sq: "seq s = seq st"
    and a: "a \<in> set (fst (get_assignments s q))"
    unfolding emitted_def by blast
  from st have b: "built st" unfolding reached_def by simp
  from built_counts [OF b] t have o: "type_count t (seq st) \<le> 1" by simp
  from get_assignments_variant [OF a] have "variant_of (from_ranges (seq st)) a"
    unfolding sq by simp
  from variant_role [OF this] from_ranges_role [OF t o]
  have "opt_list (role t a) = map trange (filter (\<lambda>r. ttype r = t) (seq st))" by simp
  with b o show ?thesis by blast
qed

text \<open>
  C7. Each of the roles housenumber, postcode, country, near_item and qualifier is
  filled by at most one range: \<^verbatim>\<open>advance\<close> appends a range of one of these types
  only to a sequence without a range of that type, a sequence built by \<^verbatim>\<open>advance\<close>
  has at most one range of each of these types, and in an assignment yielded by the
  enumerator each of these roles holds the ranges of its type of such a sequence.
\<close>

theorem single_roles_once:
  "(advance s t e force_break break_penalty = Some s' \<and> t \<in> set single_types
      \<longrightarrow> type_count t (seq s) = 0 \<and> type_count t (seq s') = 1)
   \<and> (built s \<longrightarrow> (\<forall>u \<in> set single_types. type_count u (seq s) \<le> 1))
   \<and> (lists_end_later q \<and> a \<in> set (fst (yield_token_assignments q fuel))
      \<longrightarrow> (\<forall>u \<in> set single_types.
             \<exists>st. built st \<and> type_count u (seq st) \<le> 1
               \<and> opt_list (role u a) = map trange (filter (\<lambda>r. ttype r = u) (seq st))))"
proof (intro conjI impI)
  assume h: "advance s t e force_break break_penalty = Some s' \<and> t \<in> set single_types"
  then have adv: "advance s t e force_break break_penalty = Some s'"
    and np: "t \<noteq> TOKEN_PARTIAL" by (auto simp: single_types_def)
  show "type_count t (seq s) = 0"
  proof (cases "seq s = []")
    case True then show ?thesis by simp
  next
    case False
    with advance_seq [OF adv] np show ?thesis by blast
  qed
  show "type_count t (seq s') = 1"
  proof (cases "seq s = []")
    case True
    with advance_seq [OF adv] show ?thesis by simp
  next
    case False
    with advance_seq [OF adv] np
    have "type_count t (seq s) = 0"
      "seq s' = seq s @ [\<lparr>ttype = t, trange = TokenRange (tr_end (trange (last (seq s)))) e\<rparr>]"
      by blast+
    then show ?thesis by simp
  qed
next
  assume "built s"
  from built_counts [OF this] show "\<forall>u \<in> set single_types. type_count u (seq s) \<le> 1" by simp
next
  assume "lists_end_later q \<and> a \<in> set (fst (yield_token_assignments q fuel))"
  then have "emitted q a" using yield_emitted by blast
  then show "\<forall>u \<in> set single_types.
             \<exists>st. built st \<and> type_count u (seq st) \<le> 1
               \<and> opt_list (role u a) = map trange (filter (\<lambda>r. ttype r = u) (seq st))"
    using emitted_roles by blast
qed

lemma advance_address_seq:
  "advance \<lparr>seq = [], direction = 0, seq_penalty = 0\<rparr> TOKEN_PARTIAL 1 False 0.5 = Some address_seq"
  by code_simp

lemma advance_address_postcode_seq:
  "advance address_seq TOKEN_POSTCODE 2 True 0.1 = Some address_postcode_seq"
  by code_simp

lemma built_address_postcode_seq: "built address_postcode_seq"
  using built.step [OF built.step [OF built.initial advance_address_seq] advance_address_postcode_seq] .

theorem single_roles_once_witness:
  "advance address_seq TOKEN_POSTCODE 2 True 0.1 = Some address_postcode_seq
   \<and> TOKEN_POSTCODE \<in> set single_types
   \<and> type_count TOKEN_POSTCODE (seq address_seq) = 0
   \<and> type_count TOKEN_POSTCODE (seq address_postcode_seq) = 1
   \<and> built address_postcode_seq
   \<and> type_count TOKEN_HOUSENUMBER (seq address_postcode_seq) \<le> 1
   \<and> type_count TOKEN_POSTCODE (seq address_postcode_seq) \<le> 1
   \<and> lists_end_later main_postcode_query
   \<and> postcode_search \<in> set (fst (yield_token_assignments main_postcode_query 2))
   \<and> (\<exists>st. built st \<and> type_count TOKEN_POSTCODE (seq st) \<le> 1
         \<and> [TokenRange 1 2] = map trange (filter (\<lambda>r. ttype r = TOKEN_POSTCODE) (seq st)))"
proof -
  have t: "TOKEN_POSTCODE \<in> set single_types" by (simp add: single_types_def)
  have r: "opt_list (role TOKEN_POSTCODE postcode_search) = [TokenRange 1 2]"
    by (simp add: postcode_search_def address_postcode_base_def opt_list_def)
  note w = single_roles_once [where s = address_seq and t = TOKEN_POSTCODE and e = 2
      and force_break = True and break_penalty = "0.1" and s' = address_postcode_seq
      and q = main_postcode_query and a = postcode_search and fuel = 2]
  from w advance_address_postcode_seq t
  have "type_count TOKEN_POSTCODE (seq address_seq) = 0
      \<and> type_count TOKEN_POSTCODE (seq address_postcode_seq) = 1" by blast
  moreover from built_address_postcode_seq
  have "\<forall>u \<in> set single_types. type_count u (seq address_postcode_seq) \<le> 1"
    using single_roles_once [where s = address_postcode_seq] by blast
  moreover from w main_postcode_query_wf postcode_search_yielded t
  have "\<exists>st. built st \<and> type_count TOKEN_POSTCODE (seq st) \<le> 1
         \<and> opt_list (role TOKEN_POSTCODE postcode_search)
            = map trange (filter (\<lambda>r. ttype r = TOKEN_POSTCODE) (seq st))" by blast
  ultimately show ?thesis
    using advance_address_postcode_seq t built_address_postcode_seq main_postcode_query_wf
      postcode_search_yielded unfolding r by (simp add: single_types_def)
qed

lemma contiguous_positive:
  assumes "contiguous a rs" and "r \<in> set rs"
  shows "tr_start (trange r) < tr_end (trange r)"
  using assms by (induction rs arbitrary: a) auto

lemma sum_butlast_last:
  assumes "xs \<noteq> []"
  shows "sum_list (map f (butlast xs)) + f (last xs) = (sum_list (map f xs) :: int)"
proof -
  from assms have "xs = butlast xs @ [last xs]" by simp
  then have "sum_list (map f xs) = sum_list (map f (butlast xs @ [last xs]))" by simp
  then show ?thesis by simp
qed

lemma variant_num_addr:
  assumes v: "variant_of base a"
    and pos: "\<forall>r \<in> set (address base). tr_start r \<le> tr_end r"
  shows "num_addr_tokens a \<le> num_addr_tokens base"
proof -
  let ?f = "\<lambda>t. tr_end t - tr_start t"
  from v consider
      (pen) p where "a = base\<lparr>ta_penalty := p\<rparr>"
    | (fwd) p first rest where "address base = first # rest"
         "a = base\<lparr>ta_penalty := p, name := Some first, address := rest\<rparr>"
    | (fsplit) p first rest i where "address base = first # rest"
         "tr_start first < i" "i < tr_end first"
         "a = base\<lparr>ta_penalty := p, name := Some (replace_end first i),
                    address := replace_start first i # rest\<rparr>"
    | (bwd) p where "address base \<noteq> []"
         "a = base\<lparr>ta_penalty := p, name := Some (last (address base)),
                    address := butlast (address base)\<rparr>"
    | (bsplit) p i where "address base \<noteq> []"
         "tr_start (last (address base)) < i" "i < tr_end (last (address base))"
         "a = base\<lparr>ta_penalty := p, name := Some (replace_start (last (address base)) i),
                    address := butlast (address base)
                               @ [replace_end (last (address base)) i]\<rparr>"
    unfolding variant_of_def by blast
  then show ?thesis
  proof cases
    case pen
    then show ?thesis by (simp add: num_addr_tokens_def)
  next
    case fwd
    with pos show ?thesis by (simp add: num_addr_tokens_def)
  next
    case fsplit
    then show ?thesis
      by (simp add: num_addr_tokens_def replace_start_def TokenRange_def)
  next
    case bwd
    from pos bwd(1) have "0 \<le> ?f (last (address base))" by simp
    with sum_butlast_last [OF bwd(1), of ?f] show ?thesis
      unfolding bwd(2) by (simp add: num_addr_tokens_def)
  next
    case bsplit
    have "?f (replace_end (last (address base)) i) \<le> ?f (last (address base))"
      using bsplit(3) by (simp add: replace_end_def TokenRange_def)
    with sum_butlast_last [OF bsplit(1), of ?f] show ?thesis
      unfolding bsplit(4) by (simp add: num_addr_tokens_def)
  qed
qed

lemma emitted_num_addr:
  assumes "emitted q a"
  shows "num_addr_tokens a \<le> 50"
proof -
  from assms obtain s st where st: "reached st" and sq: "seq s = seq st"
    and a: "a \<in> set (fst (get_assignments s q))"
    unfolding emitted_def by blast
  let ?base = "from_ranges (seq s)"
  from get_assignments_variant [OF a] have v: "variant_of ?base a"
    and le: "num_addr_tokens ?base \<le> 50" by simp_all
  from st have c: "contiguous 0 (seq s)" unfolding reached_def sq by simp
  have "\<forall>r \<in> set (address ?base). tr_start r \<le> tr_end r"
    unfolding from_ranges_address using contiguous_positive [OF c] by fastforce
  from variant_num_addr [OF v this] le show ?thesis by simp
qed

text \<open>
  C8. When the address (PARTIAL) ranges of a sequence span more than 50 token slots
  in total, \<^verbatim>\<open>get_assignments\<close> yields nothing for it; and the address ranges of an
  assignment that the enumerator yields span at most 50 slots.
\<close>

theorem address_tokens_limit:
  "(sum_list (map (\<lambda>r. tr_end (trange r) - tr_start (trange r))
               (filter (\<lambda>r. ttype r = TOKEN_PARTIAL) (seq s))) > 50
      \<longrightarrow> get_assignments s q = ([], Finished))
   \<and> (lists_end_later q \<and> a \<in> set (fst (yield_token_assignments q fuel))
      \<longrightarrow> num_addr_tokens a \<le> 50)"
proof (intro conjI impI)
  assume "sum_list (map (\<lambda>r. tr_end (trange r) - tr_start (trange r))
               (filter (\<lambda>r. ttype r = TOKEN_PARTIAL) (seq s))) > 50"
  then have "num_addr_tokens (from_ranges (seq s)) > 50"
    unfolding num_addr_tokens_def from_ranges_address by (simp add: comp_def)
  then show "get_assignments s q = ([], Finished)"
    by (simp add: get_assignments_def gen_yield_def)
next
  assume "lists_end_later q \<and> a \<in> set (fst (yield_token_assignments q fuel))"
  then have "emitted q a" using yield_emitted by blast
  then show "num_addr_tokens a \<le> 50" by (rule emitted_num_addr)
qed

theorem address_tokens_limit_witness:
  "sum_list (map (\<lambda>r. tr_end (trange r) - tr_start (trange r))
               (filter (\<lambda>r. ttype r = TOKEN_PARTIAL) (seq long_address_seq))) = 51
   \<and> get_assignments long_address_seq main_postcode_query = ([], Finished)
   \<and> lists_end_later main_postcode_query
   \<and> postcode_search \<in> set (fst (yield_token_assignments main_postcode_query 2))
   \<and> num_addr_tokens postcode_search \<le> 50"
proof -
  have l: "sum_list (map (\<lambda>r. tr_end (trange r) - tr_start (trange r))
               (filter (\<lambda>r. ttype r = TOKEN_PARTIAL) (seq long_address_seq))) = 51"
    by (simp add: long_address_seq_def TokenRange_def)
  note w = address_tokens_limit [where s = long_address_seq and q = main_postcode_query
      and a = postcode_search and fuel = 2]
  from w l have "get_assignments long_address_seq main_postcode_query = ([], Finished)" by simp
  moreover from w main_postcode_query_wf postcode_search_yielded
  have "num_addr_tokens postcode_search \<le> 50" by blast
  ultimately show ?thesis
    using l main_postcode_query_wf postcode_search_yielded by blast
qed

lemma from_ranges_address_postcode: "from_ranges (seq address_postcode_seq) = address_postcode_base"
  by (simp add: from_ranges_def address_postcode_seq_def address_postcode_base_def
      from_ranges_step_def empty_assignment_def)

lemma num_token_slots_main_postcode: "num_token_slots main_postcode_query = 2"
  by (simp add: num_token_slots_def main_postcode_query_def)

lemma postcode_of_address_postcode:
  "get_assignments_postcode address_postcode_seq address_postcode_base 2 = ([postcode_search], Finished)"
  by (simp add: get_assignments_postcode_def address_postcode_base_def address_postcode_seq_def
      postcode_search_def TokenRange_def gen_yield_def Let_def)

lemma from_ranges_postcode_address:
  "from_ranges (seq postcode_address_seq) = postcode_address_base"
  by (simp add: from_ranges_def postcode_address_seq_def postcode_address_base_def
      from_ranges_step_def empty_assignment_def)

lemma postcode_of_postcode_address:
  "get_assignments_postcode postcode_address_seq postcode_address_base 2
     = ([postcode_address_base\<lparr>ta_penalty := 0.1\<rparr>], Finished)"
  by (simp add: get_assignments_postcode_def postcode_address_base_def postcode_address_seq_def
      TokenRange_def gen_yield_def Let_def)

text \<open>
  When a sequence has a postcode range, at least one address range and at most 50
  address slots, \<^verbatim>\<open>get_assignments\<close> runs the postcode search first and the address
  readings after it.
\<close>

lemma get_assignments_runs_postcode:
  assumes "postcode (from_ranges (seq s)) \<noteq> None"
    and "address (from_ranges (seq s)) \<noteq> []"
    and "num_addr_tokens (from_ranges (seq s)) \<le> 50"
  shows "get_assignments s q
      = gen_then (get_assignments_postcode s (from_ranges (seq s)) (num_token_slots q))
          (get_assignments_address s (from_ranges (seq s)) q)"
  using assms by (simp add: get_assignments_def Let_def)

text \<open>
  What \<^verbatim>\<open>_get_assignments_postcode\<close> yields for an assignment \<open>base\<close> with a
  postcode range.
\<close>

lemma get_assignments_postcode_yields:
  assumes "postcode base = Some pc"
  shows "get_assignments_postcode s base n
      = (if (tr_start pc = 0 \<and> direction s \<noteq> - 1) \<or> (tr_end pc = n \<and> direction s \<noteq> 1)
         then ([base\<lparr>ta_penalty := seq_penalty s
                 + (if tr_start pc = 0 then 0 else 0.1)
                 + 0.1 * real_of_int (max 0 (int (length (address base)) - 1))\<rparr>],
               Finished)
         else ([], Finished))"
  using assms by (simp add: get_assignments_postcode_def Let_def gen_yield_def)

text \<open>
  C2, as the code has it. For a sequence with a postcode range, every postcode search
  that \<^verbatim>\<open>_get_assignments_postcode\<close> yields is the assignment of the sequence with the
  penalty of the sequence when the postcode starts at slot 0
  (\<^verbatim>\<open><postcode>,<address>\<close>) and with that penalty plus 0.1 when it does not (the
  postcode ends the query, \<^verbatim>\<open><address>,<postcode>\<close>), plus
  0.1 * max(0, number of address ranges - 1) in both cases; and the postcode adjoins a
  boundary of the query.
\<close>

theorem postcode_search_penalty:
  assumes "postcode (from_ranges (seq s)) = Some pc"
    and "a \<in> set (fst (get_assignments_postcode s (from_ranges (seq s)) (num_token_slots q)))"
  shows "a = (from_ranges (seq s))\<lparr>ta_penalty :=
               seq_penalty s + (if tr_start pc = 0 then 0 else 0.1)
               + 0.1 * real_of_int
                   (max 0 (int (length (address (from_ranges (seq s)))) - 1))\<rparr>
       \<and> (tr_start pc = 0 \<or> tr_end pc = num_token_slots q)"
  using assms(2) unfolding get_assignments_postcode_yields [OF assms(1)]
  by (auto split: if_splits)

theorem postcode_search_penalty_witness:
  "postcode (from_ranges (seq address_postcode_seq)) = Some (TokenRange 1 2)
   \<and> postcode_search
       \<in> set (fst (get_assignments_postcode address_postcode_seq
                     (from_ranges (seq address_postcode_seq))
                     (num_token_slots main_postcode_query)))
   \<and> postcode_search = address_postcode_base\<lparr>ta_penalty := 0.1 + 0.1 + 0\<rparr>
   \<and> tr_end (TokenRange 1 2) = num_token_slots main_postcode_query
   \<and> postcode (from_ranges (seq postcode_address_seq)) = Some (TokenRange 0 1)
   \<and> postcode_address_base\<lparr>ta_penalty := 0.1\<rparr>
       \<in> set (fst (get_assignments_postcode postcode_address_seq
                     (from_ranges (seq postcode_address_seq))
                     (num_token_slots main_postcode_query)))
   \<and> seq_penalty postcode_address_seq = 0.1"
proof -
  have p1: "postcode (from_ranges (seq address_postcode_seq)) = Some (TokenRange 1 2)"
    by (simp add: from_ranges_address_postcode address_postcode_base_def)
  have m1: "postcode_search
       \<in> set (fst (get_assignments_postcode address_postcode_seq
                     (from_ranges (seq address_postcode_seq))
                     (num_token_slots main_postcode_query)))"
    by (simp add: from_ranges_address_postcode num_token_slots_main_postcode
        postcode_of_address_postcode)
  from postcode_search_penalty [OF p1 m1]
  have e1: "postcode_search = address_postcode_base\<lparr>ta_penalty := 0.1 + 0.1 + 0\<rparr>"
    and b1: "tr_end (TokenRange 1 2) = num_token_slots main_postcode_query"
    by (simp_all add: from_ranges_address_postcode)
       (simp_all add: address_postcode_base_def address_postcode_seq_def TokenRange_def)
  have p2: "postcode (from_ranges (seq postcode_address_seq)) = Some (TokenRange 0 1)"
    by (simp add: from_ranges_postcode_address postcode_address_base_def)
  have m2: "postcode_address_base\<lparr>ta_penalty := 0.1\<rparr>
       \<in> set (fst (get_assignments_postcode postcode_address_seq
                     (from_ranges (seq postcode_address_seq))
                     (num_token_slots main_postcode_query)))"
    by (simp add: from_ranges_postcode_address num_token_slots_main_postcode
        postcode_of_postcode_address)
  from postcode_search_penalty [OF p2 m2]
  have "seq_penalty postcode_address_seq = 0.1"
    by (simp add: postcode_address_seq_def)
  with p1 m1 e1 b1 p2 m2 show ?thesis by simp
qed

text \<open>
  In the query \<^verbatim>\<open>main 12345\<close> the postcode comes after the address and ends the
  query; the postcode search has the penalty of the sequence plus 0.1, not the penalty
  of the sequence.
\<close>

theorem postcode_search_penalty_counterexample:
  "postcode_search \<in> set (fst (yield_token_assignments main_postcode_query 2))
   \<and> from_ranges (seq address_postcode_seq) = address_postcode_base
   \<and> address address_postcode_base = [TokenRange 0 1]
   \<and> postcode address_postcode_base = Some (TokenRange 1 2)
   \<and> tr_end (TokenRange 1 2) = num_token_slots main_postcode_query
   \<and> get_assignments_postcode address_postcode_seq address_postcode_base
        (num_token_slots main_postcode_query) = ([postcode_search], Finished)
   \<and> ta_penalty postcode_search
       \<noteq> seq_penalty address_postcode_seq
          + 0.1 * real_of_int (max 0 (int (length (address address_postcode_base)) - 1))"
  using postcode_search_yielded from_ranges_address_postcode postcode_of_address_postcode
  by (simp add: num_token_slots_main_postcode)
     (simp add: address_postcode_base_def postcode_search_def address_postcode_seq_def
        TokenRange_def)

subsection \<open>The rerank phase\<close>

lemma rerank_zip_query:
  "rerank_tokens ascii_digit equal_opcodes zip_query zip_parts = Inr zip_query_reranked"
  by code_simp

lemma rerank_postcode_map:
  assumes "tl_tokens tlist = t0 # ts"
  shows "rerank_postcode tlist repls =
    Inr (map (\<lambda>repl. if tl_end repl = tl_end tlist \<and> tl_ttype repl \<noteq> TOKEN_POSTCODE
                        \<and> (tl_ttype repl \<noteq> TOKEN_HOUSENUMBER \<or> length (lookup_word t0) > 4)
                     then add_penalty repl 0.39 else repl) repls)"
  using assms by (induction repls) simp_all

text \<open>
  C4, as the code has it. In the rerank phase, the step for a POSTCODE token list adds
  0.39 to the penalty of every token of every list that starts at the same node and
  ends at the same slot, except the lists of type POSTCODE, and except the lists of
  type HOUSENUMBER when the lookup word of the first token of the POSTCODE list has at
  most 4 characters. The other lists of the node are unchanged.
\<close>

theorem rerank_postcode_competitors:
  assumes "i < length (nodes q)"
    and "k < length (starting (nodes q ! i))"
    and "starting (nodes q ! i) ! k = tlist"
    and "tl_ttype tlist = TOKEN_POSTCODE"
    and "tl_tokens tlist = t0 # ts"
  shows "rerank_step dig opcodes parts (i, k) q =
    Inr (q\<lparr>nodes := (nodes q)[i := (nodes q ! i)\<lparr>starting :=
          map (\<lambda>repl. if tl_end repl = tl_end tlist \<and> tl_ttype repl \<noteq> TOKEN_POSTCODE
                        \<and> (tl_ttype repl \<noteq> TOKEN_HOUSENUMBER \<or> length (lookup_word t0) > 4)
                     then repl\<lparr>tl_tokens :=
                            map (\<lambda>t. t\<lparr>penalty := penalty t + 0.39\<rparr>) (tl_tokens repl)\<rparr>
                     else repl)
              (starting (nodes q ! i))\<rparr>]\<rparr>)"
proof -
  have "rerank_step dig opcodes parts (i, k) q =
      (case rerank_postcode tlist (starting (nodes q ! i)) of
         Inl e \<Rightarrow> Inl e
       | Inr sts \<Rightarrow> Inr (q\<lparr>nodes := (nodes q)[i := (nodes q ! i)\<lparr>starting := sts\<rparr>]\<rparr>))"
    using assms(3,4) by (simp add: rerank_step_def Let_def)
  then show ?thesis
    unfolding rerank_postcode_map [OF assms(5)] add_penalty_def by simp
qed

theorem rerank_postcode_competitors_witness:
  "0 < length (nodes zip_query)
   \<and> 0 < length (starting (nodes zip_query ! 0))
   \<and> starting (nodes zip_query ! 0) ! 0
       = \<lparr>tl_end = 1, tl_ttype = TOKEN_POSTCODE,
          tl_tokens = [simple_token (pystr ''12345'') 0.1]\<rparr>
   \<and> rerank_step ascii_digit equal_opcodes zip_parts (0, 0) zip_query = Inr zip_query_reranked"
proof -
  let ?pc = "\<lparr>tl_end = 1, tl_ttype = TOKEN_POSTCODE,
          tl_tokens = [simple_token (pystr ''12345'') 0.1]\<rparr>"
  have n: "0 < length (nodes zip_query)" and k: "0 < length (starting (nodes zip_query ! 0))"
    and l: "starting (nodes zip_query ! 0) ! 0 = ?pc"
    by (simp_all add: zip_query_def)
  have t: "tl_ttype ?pc = TOKEN_POSTCODE" and ts: "tl_tokens ?pc = simple_token (pystr ''12345'') 0.1 # []"
    by simp_all
  from rerank_postcode_competitors [OF n k l t ts, of ascii_digit equal_opcodes zip_parts]
  have "rerank_step ascii_digit equal_opcodes zip_parts (0, 0) zip_query = Inr zip_query_reranked"
    by (simp add: zip_query_def zip_query_reranked_def simple_token_def pystr_def)
  with n k l show ?thesis by simp
qed

text \<open>
  In the query \<^verbatim>\<open>12345\<close> the house number list has a lookup word of 5 characters
  and shares its node and its end with the postcode list; the rerank phase adds 0.39
  to its token.
\<close>

theorem rerank_postcode_competitors_counterexample:
  "rerank_tokens ascii_digit equal_opcodes zip_query zip_parts = Inr zip_query_reranked
   \<and> starting (nodes zip_query ! 0) ! 0
       = \<lparr>tl_end = 1, tl_ttype = TOKEN_POSTCODE,
          tl_tokens = [simple_token (pystr ''12345'') 0.1]\<rparr>
   \<and> starting (nodes zip_query ! 0) ! 1
       = \<lparr>tl_end = 1, tl_ttype = TOKEN_HOUSENUMBER,
          tl_tokens = [simple_token (pystr ''12345'') 0.2]\<rparr>
   \<and> starting (nodes zip_query_reranked ! 0) ! 1
       = \<lparr>tl_end = 1, tl_ttype = TOKEN_HOUSENUMBER,
          tl_tokens = [simple_token (pystr ''12345'') (0.2 + 0.39)]\<rparr>
   \<and> length (lookup_word (simple_token (pystr ''12345'') 0.2)) > 4"
  using rerank_zip_query
  by (simp add: zip_query_def zip_query_reranked_def simple_token_def pystr_def)

subsection \<open>The extra house number tokens\<close>

lemma fold_err_snoc:
  "fold_err f (xs @ [x]) s = (case fold_err f xs s of Inl e \<Rightarrow> Inl e | Inr s' \<Rightarrow> f x s')"
  by (induction xs arbitrary: s) (auto split: sum.splits)

lemma insert_token_new:
  assumes "\<not> list_ex (\<lambda>l. tl_end l = e \<and> tl_ttype l = tt) ls"
  shows "insert_token e tt tok ls = ls @ [\<lparr>tl_end = e, tl_ttype = tt, tl_tokens = [tok]\<rparr>]"
  using assms by (induction ls) auto

lemma add_extra_step_node:
  assumes "i < length (nodes q)"
  shows "add_extra_step dig admits parts i q
       = Inr (q\<lparr>nodes := (nodes q)[i := extra_node dig admits parts i (nodes q ! i)]\<rparr>)"
proof -
  have n: "norm_index (length (nodes q)) (int i) = Some i"
    using assms by (simp add: norm_index_def)
  have same: "q\<lparr>nodes := (nodes q)[i := nodes q ! i]\<rparr> = q"
    by simp
  show ?thesis
    unfolding add_extra_step_def add_token_def extra_node_def Let_def
    using n same by (simp add: TokenRange_def)
qed

lemma add_extra_loop:
  assumes "b \<le> length (nodes q)"
  shows "\<exists>q'. fold_err (add_extra_step dig admits parts) [0 ..< b] q = Inr q'
      \<and> length (nodes q') = length (nodes q)
      \<and> (\<forall>j < length (nodes q).
            nodes q' ! j = (if j < b then extra_node dig admits parts j (nodes q ! j)
                            else nodes q ! j))"
  using assms
proof (induction b)
  case 0
  show ?case by simp
next
  case (Suc b)
  then obtain q1 where f: "fold_err (add_extra_step dig admits parts) [0 ..< b] q = Inr q1"
    and len: "length (nodes q1) = length (nodes q)"
    and nd: "\<forall>j < length (nodes q).
            nodes q1 ! j = (if j < b then extra_node dig admits parts j (nodes q ! j)
                            else nodes q ! j)"
    by auto
  from Suc.prems len have b: "b < length (nodes q1)" by simp
  let ?q' = "q1\<lparr>nodes := (nodes q1)[b := extra_node dig admits parts b (nodes q1 ! b)]\<rparr>"
  have "fold_err (add_extra_step dig admits parts) [0 ..< Suc b] q = Inr ?q'"
    using f add_extra_step_node [OF b] by (simp add: fold_err_snoc)
  moreover have "length (nodes ?q') = length (nodes q)" using len by simp
  moreover have "nodes ?q' ! j = (if j < Suc b then extra_node dig admits parts j (nodes q ! j)
                            else nodes q ! j)" if "j < length (nodes q)" for j
    using that nd len b by (cases "j = b") (auto simp: nth_list_update)
  ultimately show ?case by blast
qed

text \<open>
  C6, as the code has it. For every term among the first 1000 of the query whose
  transliterated token is a string of at most 4 digits, whose node has no HOUSENUMBER
  list for its slot and whose phrase type admits house numbers,
  \<^verbatim>\<open>add_extra_tokens\<close> adds a HOUSENUMBER list for exactly that slot with one token
  of penalty 0.5.
\<close>

theorem extra_housenumber_token:
  assumes "i < length parts" and "i < length (nodes q)" and "i < 1000"
    and "length (qp_token (parts ! i)) \<le> 4"
    and "str_isdigit dig (qp_token (parts ! i))"
    and "\<not> has_tokens (nodes q ! i) (int i + 1) [TOKEN_HOUSENUMBER]"
    and "admits (ptype (nodes q ! i)) TOKEN_HOUSENUMBER"
  shows "\<exists>q'. add_extra_tokens dig admits q parts = Inr q'
      \<and> starting (nodes q' ! i)
          = starting (nodes q ! i)
            @ [\<lparr>tl_end = int i + 1, tl_ttype = TOKEN_HOUSENUMBER,
                tl_tokens = [\<lparr>penalty = 0.5, token = Some 0, count = PInt 1,
                               addr_count = PInt 1, lookup_word = qp_token (parts ! i),
                               word_token = qp_token (parts ! i), info = None\<rparr>]\<rparr>]"
proof -
  let ?m = "min (length parts) (min (length (nodes q)) 1000)"
  have m: "?m \<le> length (nodes q)" by simp
  from add_extra_loop [OF m, of dig admits parts] obtain q'
    where f: "add_extra_tokens dig admits q parts = Inr q'"
      and nd: "\<forall>j < length (nodes q).
            nodes q' ! j = (if j < ?m then extra_node dig admits parts j (nodes q ! j)
                            else nodes q ! j)"
    unfolding add_extra_tokens_def by blast
  from assms(1-3) have "i < ?m" by simp
  with nd assms(2) have "nodes q' ! i = extra_node dig admits parts i (nodes q ! i)" by simp
  moreover have "\<not> list_ex (\<lambda>l. tl_end l = int i + 1 \<and> tl_ttype l = TOKEN_HOUSENUMBER)
      (starting (nodes q ! i))"
    using assms(6) by (simp add: has_tokens_def)
  ultimately have "starting (nodes q' ! i) = starting (nodes q ! i)
            @ [\<lparr>tl_end = int i + 1, tl_ttype = TOKEN_HOUSENUMBER,
                tl_tokens = [extra_token (qp_token (parts ! i))]\<rparr>]"
    using assms(4-7) by (simp add: extra_node_def insert_token_new)
  with f show ?thesis by (simp add: extra_token_def)
qed

lemma add_extra_beyond:
  assumes "1000 \<le> i" and "i < length (nodes q)"
  shows "map_sum id (\<lambda>q'. nodes q' ! i) (add_extra_tokens dig admits q parts)
       = Inr (nodes q ! i)"
proof -
  let ?m = "min (length parts) (min (length (nodes q)) 1000)"
  have m: "?m \<le> length (nodes q)" by simp
  from add_extra_loop [OF m, of dig admits parts] obtain q'
    where f: "add_extra_tokens dig admits q parts = Inr q'"
      and nd: "\<forall>j < length (nodes q).
            nodes q' ! j = (if j < ?m then extra_node dig admits parts j (nodes q ! j)
                            else nodes q ! j)"
    unfolding add_extra_tokens_def by blast
  from nd assms have "nodes q' ! i = nodes q ! i" by simp
  with f show ?thesis by simp
qed

theorem extra_housenumber_token_witness:
  "0 < length number_parts \<and> 0 < length (nodes number_query) \<and> (0::nat) < 1000
   \<and> length (qp_token (number_parts ! 0)) \<le> 4
   \<and> str_isdigit ascii_digit (qp_token (number_parts ! 0))
   \<and> \<not> has_tokens (nodes number_query ! 0) (int 0 + 1) [TOKEN_HOUSENUMBER]
   \<and> admits_all (ptype (nodes number_query ! 0)) TOKEN_HOUSENUMBER
   \<and> (\<exists>q'. add_extra_tokens ascii_digit admits_all number_query number_parts = Inr q'
         \<and> starting (nodes q' ! 0)
             = [\<lparr>tl_end = 1, tl_ttype = TOKEN_HOUSENUMBER,
                 tl_tokens = [\<lparr>penalty = 0.5, token = Some 0, count = PInt 1,
                                addr_count = PInt 1, lookup_word = pystr ''12'',
                                word_token = pystr ''12'', info = None\<rparr>]\<rparr>])"
proof -
  have h: "0 < length number_parts" "0 < length (nodes number_query)" "(0::nat) < 1000"
    "length (qp_token (number_parts ! 0)) \<le> 4"
    "str_isdigit ascii_digit (qp_token (number_parts ! 0))"
    "\<not> has_tokens (nodes number_query ! 0) (int 0 + 1) [TOKEN_HOUSENUMBER]"
    "admits_all (ptype (nodes number_query ! 0)) TOKEN_HOUSENUMBER"
    by (simp_all add: number_parts_def number_query_def bare_node_def pystr_def
        str_isdigit_def ascii_digit_def has_tokens_def admits_all_def)
  from extra_housenumber_token [where i = 0 and parts = number_parts and q = number_query
      and dig = ascii_digit and admits = admits_all, OF h]
  have "\<exists>q'. add_extra_tokens ascii_digit admits_all number_query number_parts = Inr q'
         \<and> starting (nodes q' ! 0)
             = [\<lparr>tl_end = 1, tl_ttype = TOKEN_HOUSENUMBER,
                 tl_tokens = [\<lparr>penalty = 0.5, token = Some 0, count = PInt 1,
                                addr_count = PInt 1, lookup_word = pystr ''12'',
                                word_token = pystr ''12'', info = None\<rparr>]\<rparr>]"
    by (simp add: number_parts_def number_query_def bare_node_def)
  with h show ?thesis by blast
qed

lemma no_extra_token_beyond_1000:
  "length long_parts = 1001 \<and> length (nodes long_query) = 1002
   \<and> qp_token (long_parts ! 1000) = pystr ''1''
   \<and> length (pystr ''1'') \<le> 4
   \<and> str_isdigit ascii_digit (pystr ''1'')
   \<and> \<not> has_tokens (nodes long_query ! 1000) 1001 [TOKEN_HOUSENUMBER]
   \<and> admits_all (ptype (nodes long_query ! 1000)) TOKEN_HOUSENUMBER
   \<and> map_sum id (\<lambda>q'. starting (nodes q' ! 1000))
        (add_extra_tokens ascii_digit admits_all long_query long_parts) = Inr []"
proof -
  have n: "nodes long_query ! 1000 = bare_node"
    by (simp add: long_query_def)
  have "(1000::nat) \<le> 1000" "1000 < length (nodes long_query)"
    by (simp_all add: long_query_def)
  from add_extra_beyond [OF this, of ascii_digit admits_all long_parts]
  have "map_sum id (\<lambda>q'. starting (nodes q' ! 1000))
        (add_extra_tokens ascii_digit admits_all long_query long_parts) = Inr []"
    unfolding n
    by (cases "add_extra_tokens ascii_digit admits_all long_query long_parts")
       (auto simp: bare_node_def)
  then show ?thesis
    unfolding n
    by (simp add: long_parts_def long_query_def bare_node_def pystr_def str_isdigit_def
        ascii_digit_def has_tokens_def admits_all_def)
qed

lemma extra_postcode_phrase:
  "add_extra_tokens ascii_digit postcode_phrase_only postcode_phrase_query number_parts
     = Inr postcode_phrase_query"
  by code_simp

text \<open>
  In a query of 1001 terms \<^verbatim>\<open>1\<close> without tokens, the term of index 1000 gets no
  house number token. And when a postcode phrase takes postcode tokens only, the term
  \<^verbatim>\<open>12\<close> of a postcode phrase gets none.
\<close>

theorem extra_housenumber_token_counterexample:
  "length long_parts = 1001 \<and> length (nodes long_query) = 1002
   \<and> qp_token (long_parts ! 1000) = pystr ''1''
   \<and> length (pystr ''1'') \<le> 4
   \<and> str_isdigit ascii_digit (pystr ''1'')
   \<and> \<not> has_tokens (nodes long_query ! 1000) 1001 [TOKEN_HOUSENUMBER]
   \<and> admits_all (ptype (nodes long_query ! 1000)) TOKEN_HOUSENUMBER
   \<and> map_sum id (\<lambda>q'. starting (nodes q' ! 1000))
        (add_extra_tokens ascii_digit admits_all long_query long_parts) = Inr []
   \<and> qp_token (number_parts ! 0) = pystr ''12''
   \<and> str_isdigit ascii_digit (pystr ''12'')
   \<and> \<not> has_tokens (nodes postcode_phrase_query ! 0) 1 [TOKEN_HOUSENUMBER]
   \<and> add_extra_tokens ascii_digit postcode_phrase_only postcode_phrase_query number_parts
       = Inr postcode_phrase_query
   \<and> starting (nodes postcode_phrase_query ! 0) = []"
  using no_extra_token_beyond_1000 extra_postcode_phrase
  by (simp add: number_parts_def postcode_phrase_query_def bare_node_def pystr_def
      str_isdigit_def ascii_digit_def has_tokens_def)

subsection \<open>The word windows\<close>

lemma extract_last_window:
  "extract_last terms first (first + Suc n)
     (window_word terms first n, window_penalty terms first n, d)
   = (window_word terms first (Suc n), window_penalty terms first (Suc n),
      log_entry (window_entry terms first (Suc n)) d)"
  by (simp add: extract_last_def Let_def log_entry_def window_entry_def window_range_def)

lemma inner_fold:
  "fold (extract_last terms first) [first + 1 ..< first + 1 + k]
     (window_word terms first 0, window_penalty terms first 0, d)
   = (window_word terms first k, window_penalty terms first k,
      fold log_entry (map (window_entry terms first) [1 ..< Suc k]) d)"
proof (induction k)
  case 0
  show ?case by simp
next
  case (Suc k)
  have "[first + 1 ..< first + 1 + Suc k] = [first + 1 ..< first + 1 + k] @ [first + Suc k]"
    by simp
  then show ?case
    using Suc.IH extract_last_window [of terms first k]
    by (simp del: upt_Suc window_word.simps window_penalty.simps add: upt_Suc_append)
qed

lemma extract_first_log:
  assumes "first < length terms"
  shows "extract_first terms first d
       = fold log_entry (map (window_entry terms first)
                           [0 ..< min 20 (length terms - first)]) d"
proof -
  let ?k = "min 20 (length terms - first) - 1"
  have "min (first + 20) (length terms) = first + 1 + ?k"
    using assms by (auto simp: min_def)
  then have up: "[first + 1 ..< min (first + 20) (length terms)] = [first + 1 ..< first + 1 + ?k]"
    by (simp only:)
  have d1: "dict_append d (qp_token (terms ! first))
         \<lparr>tr_start = int first, tr_end = int first + 1,
            tr_penalty = Some (PENALTY_IN_TOKEN_BREAK BREAK_WORD)\<rparr>
       = log_entry (window_entry terms first 0) d"
    by (simp add: log_entry_def window_entry_def window_range_def)
  have "extract_first terms first d
      = snd (snd (fold (extract_last terms first) [first + 1 ..< first + 1 + ?k]
          (window_word terms first 0, window_penalty terms first 0,
           log_entry (window_entry terms first 0) d)))"
    unfolding extract_first_def Let_def up d1 by simp
  also have "\<dots> = fold log_entry (map (window_entry terms first) [1 ..< Suc ?k])
                     (log_entry (window_entry terms first 0) d)"
    unfolding inner_fold by simp
  also have "\<dots> = fold log_entry (map (window_entry terms first) (0 # [1 ..< Suc ?k])) d"
    by simp
  also have "0 # [1 ..< Suc ?k] = [0 ..< min 20 (length terms - first)]"
  proof -
    have "Suc ?k = min 20 (length terms - first)" using assms by (auto simp: min_def)
    moreover have "0 # [1 ..< Suc ?k] = [0 ..< Suc ?k]" by (simp add: upt_conv_Cons del: upt_Suc)
    ultimately show ?thesis by (simp only:)
  qed
  finally show ?thesis .
qed

lemma extract_words_log:
  "extract_words terms start words = fold log_entry (windows terms start) words"
proof -
  have "fold (extract_first terms) xs d
      = fold log_entry (concat (map (\<lambda>first. map (window_entry terms first)
                                  [0 ..< min 20 (length terms - first)]) xs)) d"
    if "\<forall>x \<in> set xs. x < length terms" for xs d
    using that by (induction xs arbitrary: d) (simp_all add: extract_first_log)
  from this [of "[start ..< length terms]" words] show ?thesis
    by (simp add: extract_words_def windows_def)
qed

lemma log_entries:
  "dict_entries (fold log_entry ps d) w
     = dict_entries d w @ map snd (filter (\<lambda>p. fst p = w) ps)"
proof (induction ps arbitrary: d)
  case Nil
  show ?case by simp
next
  case (Cons p ps)
  have "dict_entries (log_entry p d) w
      = dict_entries d w @ (if fst p = w then [snd p] else [])"
    by (simp add: log_entry_def dict_append_def dict_entries_def)
  then show ?case using Cons.IH [of "log_entry p d"] by simp
qed

lemma added_ranges_windows:
  "added_ranges terms start words w
     = map snd (filter (\<lambda>p. fst p = w) (windows terms start))"
  by (simp add: added_ranges_def extract_words_log log_entries)

lemma set_windows:
  "set (windows terms start)
     = {window_entry terms first n | first n.
          start \<le> first \<and> first < length terms \<and> n < 20 \<and> first + n < length terms}"
proof (intro set_eqI iffI)
  fix e
  assume "e \<in> set (windows terms start)"
  then obtain first n where "start \<le> first" "first < length terms"
      "n < min 20 (length terms - first)" "e = window_entry terms first n"
    by (auto simp: windows_def)
  moreover from this have "n < 20" "first + n < length terms" by linarith+
  ultimately show "e \<in> {window_entry terms first n | first n.
          start \<le> first \<and> first < length terms \<and> n < 20 \<and> first + n < length terms}"
    by blast
next
  fix e
  assume "e \<in> {window_entry terms first n | first n.
          start \<le> first \<and> first < length terms \<and> n < 20 \<and> first + n < length terms}"
  then obtain first n where h: "start \<le> first" "first < length terms" "n < 20"
      "first + n < length terms" and e: "e = window_entry terms first n" by blast
  from h have "first \<in> set [start ..< length terms]"
    and "n \<in> set [0 ..< min 20 (length terms - first)]" by simp_all
  then show "e \<in> set (windows terms start)"
    unfolding windows_def e by (auto simp del: set_upt)
qed

lemma entries_added:
  "dict_entries (extract_words terms start words) w
     = dict_entries words w @ added_ranges terms start words w"
  by (simp add: added_ranges_def extract_words_log log_entries)

lemma added_bounds:
  assumes "r \<in> set (added_ranges terms start words w)"
  shows "int start \<le> tr_start r \<and> tr_start r < tr_end r
       \<and> tr_end r \<le> int (length terms) \<and> tr_end r - tr_start r \<le> 20"
proof -
  from assms obtain p where "p \<in> set (windows terms start)" and "r = snd p"
    unfolding added_ranges_windows by auto
  then obtain first n where "start \<le> first" "n < 20" "first + n < length terms"
      "r = window_range terms first n"
    unfolding set_windows by (auto simp: window_entry_def)
  then show ?thesis by (simp add: window_range_def)
qed

lemma window_present:
  assumes "start \<le> first" and "n < 20" and "first + n < length terms"
  shows "window_range terms first n
       \<in> set (added_ranges terms start words (window_word terms first n))"
proof -
  from assms have "first < length terms" by linarith
  with assms have "window_entry terms first n \<in> set (windows terms start)"
    unfolding set_windows by blast
  then show ?thesis
    unfolding added_ranges_windows by (force simp: window_entry_def)
qed

text \<open>
  C3, as the code has it. \<^verbatim>\<open>extract_words\<close> only appends to the lists of the
  dictionary; every entry that it adds is a range within the terms from \<open>start\<close> on,
  of at least one and at most 20 slots; and every window \<open>[i, j)\<close> of at most 20
  terms from \<open>start\<close> on is added, with its penalty, to the list of the word made of
  its terms joined by spaces.
\<close>

theorem word_windows:
  "(\<forall>w. dict_entries (extract_words terms start words) w
          = dict_entries words w @ added_ranges terms start words w)
   \<and> (\<forall>w. \<forall>r \<in> set (added_ranges terms start words w).
          int start \<le> tr_start r \<and> tr_start r < tr_end r
          \<and> tr_end r \<le> int (length terms) \<and> tr_end r - tr_start r \<le> 20)
   \<and> (\<forall>i j. start \<le> i \<and> i < j \<and> j \<le> length terms \<and> j - i \<le> 20
          \<longrightarrow> \<lparr>tr_start = int i, tr_end = int j,
                tr_penalty = Some (window_penalty terms i (j - i - 1))\<rparr>
              \<in> set (added_ranges terms start words (window_word terms i (j - i - 1))))"
proof (intro conjI allI ballI impI)
  fix w
  show "dict_entries (extract_words terms start words) w
          = dict_entries words w @ added_ranges terms start words w"
    by (rule entries_added)
next
  fix w r
  assume "r \<in> set (added_ranges terms start words w)"
  from added_bounds [OF this]
  show "int start \<le> tr_start r" "tr_start r < tr_end r" "tr_end r \<le> int (length terms)"
    "tr_end r - tr_start r \<le> 20" by simp_all
next
  fix i j :: nat
  assume h: "start \<le> i \<and> i < j \<and> j \<le> length terms \<and> j - i \<le> 20"
  then have "start \<le> i" "j - i - 1 < 20" "i + (j - i - 1) < length terms" by linarith+
  from window_present [OF this, of words]
  have "window_range terms i (j - i - 1)
       \<in> set (added_ranges terms start words (window_word terms i (j - i - 1)))" .
  moreover from h have "window_range terms i (j - i - 1)
      = \<lparr>tr_start = int i, tr_end = int j,
         tr_penalty = Some (window_penalty terms i (j - i - 1))\<rparr>"
    by (simp add: window_range_def)
  ultimately show "\<lparr>tr_start = int i, tr_end = int j,
                tr_penalty = Some (window_penalty terms i (j - i - 1))\<rparr>
              \<in> set (added_ranges terms start words (window_word terms i (j - i - 1)))"
    by simp
qed

theorem word_windows_witness:
  "(0::nat) \<le> 1 \<and> (1::nat) < 3 \<and> 3 \<le> length three_terms \<and> (3::nat) - 1 \<le> 20
   \<and> \<lparr>tr_start = 1, tr_end = 3, tr_penalty = Some 0.2\<rparr>
       \<in> set (dict_entries (extract_words three_terms 0 Map.empty) (pystr ''york city''))
   \<and> (3::int) - 1 \<le> 20"
proof -
  note w = word_windows [of three_terms 0 Map.empty]
  note w1 = w [THEN conjunct1, rule_format]
    and w2 = w [THEN conjunct2, THEN conjunct1, rule_format]
    and w3 = w [THEN conjunct2, THEN conjunct2, rule_format]
  have k: "window_word three_terms 1 (3 - 1 - 1) = pystr ''york city''"
    and p: "window_penalty three_terms 1 (3 - 1 - 1) = 0.2"
    by (simp_all add: three_terms_def pystr_def SPACE_def)
  have h: "(0::nat) \<le> 1 \<and> (1::nat) < 3 \<and> 3 \<le> length three_terms \<and> (3::nat) - 1 \<le> 20"
    by (simp add: three_terms_def)
  from w3 [of 1 3, OF h]
  have m: "\<lparr>tr_start = 1, tr_end = 3, tr_penalty = Some 0.2\<rparr>
      \<in> set (added_ranges three_terms 0 Map.empty (pystr ''york city''))"
    unfolding k p by simp
  from w2 [OF m] have b: "(3::int) - 1 \<le> 20" by simp
  from w1 [of "pystr ''york city''"] m
  have "\<lparr>tr_start = 1, tr_end = 3, tr_penalty = Some 0.2\<rparr>
       \<in> set (dict_entries (extract_words three_terms 0 Map.empty) (pystr ''york city''))"
    by simp
  with h b show ?thesis by simp
qed

text \<open>
  For twenty terms the window of all of them is added: its range has 20 slots, more
  than 19.
\<close>

theorem word_windows_counterexample:
  "length twenty_terms = 20
   \<and> \<lparr>tr_start = 0, tr_end = 20, tr_penalty = Some (window_penalty twenty_terms 0 19)\<rparr>
       \<in> set (dict_entries (extract_words twenty_terms 0 Map.empty)
                 (window_word twenty_terms 0 19))
   \<and> \<not> ((20::int) - 0 \<le> 19)"
proof -
  have l: "length twenty_terms = 20" by (simp add: twenty_terms_def)
  have "(0::nat) \<le> 0" "(19::nat) < 20" "0 + 19 < length twenty_terms"
    by (simp_all add: l)
  from window_present [OF this, of Map.empty]
  have "window_range twenty_terms 0 19
      \<in> set (dict_entries (extract_words twenty_terms 0 Map.empty)
                 (window_word twenty_terms 0 19))"
    unfolding entries_added [of twenty_terms 0 Map.empty] by simp
  then show ?thesis using l by (simp add: window_range_def)
qed

end
